theory Spec2Isabelle
  imports Main "HOL-Library.Word"
begin

unbundle bit_operations_syntax

section \<open>The Rocket NPU job engine (drivers/accel/rocket/rocket\_job.c)\<close>

text \<open>
  The theory embeds the job engine of the Rocket accelerator driver: the execution side
  (\<open>rocket_job_hw_submit\<close>, \<open>rocket_job_run\<close>, \<open>rocket_job_handle_done\<close>,
  \<open>rocket_job_handle_irq\<close>, \<open>rocket_reset\<close>, \<open>rocket_job_timedout\<close>) and the submission
  side (\<open>rocket_copy_tasks\<close>, \<open>rocket_job_push\<close>, \<open>rocket_ioctl_submit_job\<close>,
  \<open>rocket_ioctl_submit\<close>).

  Pointers are references into explicit stores: a job pointer is an index into the list
  of jobs, a fence pointer an index into the list of fences. Dereferencing a pointer that
  is NULL or outside its store has no defined behaviour in C; every function that does so
  returns \<open>None\<close>. Everything a function does to the outside (register writes, calls into
  the IOMMU, runtime PM and the DRM scheduler, log lines) is appended to the state's list
  of effects, in program order.
\<close>

subsection \<open>Data\<close>

type_synonym fence_ref = nat
type_synonym job_ref = nat
type_synonym bo_ref = nat
type_synonym sched_fence = nat

text \<open>A hardware fence as the driver uses it: the sequence number it was initialised with
  (\<open>dma_fence_init\<close>) and its signaled bit.\<close>

record dma_fence =
  seqno :: "64 word"
  signaled :: bool

text \<open>\<open>struct rocket_task\<close> and \<open>struct rocket_job\<close>. The header that declares them is not
  among the sources; the fields are the ones rocket\_job.c reads and writes, the counters are
  unsigned 32-bit values and \<open>regcmd\<close> is printed with \<open>%llx\<close>. \<open>finished_error\<close> is
  \<open>job->base.s_fence->finished.error\<close>, \<open>dependencies\<close> is the dependency set of the embedded
  scheduler job, \<open>inference_done_fence\<close> names the scheduler's finished fence. The arrays
  \<open>in_bos\<close> and \<open>out_bos\<close> are lists, their lengths the counts \<open>in_bo_count\<close> and
  \<open>out_bo_count\<close>.\<close>

record rocket_task =
  regcmd :: "64 word"
  regcmd_count :: "32 word"

record rocket_job =
  tasks :: "rocket_task list"
  task_count :: "32 word"
  next_task_idx :: "32 word"
  in_bos :: "bo_ref list"
  out_bos :: "bo_ref list"
  inference_done_fence :: "sched_fence option"
  done_fence :: "fence_ref option"
  domain :: nat
  finished_error :: int
  dependencies :: "sched_fence list"

text \<open>The registers rocket\_job.c touches. The values of the macros
  \<open>PC_INTERRUPT_MASK_DPU_0 | PC_INTERRUPT_MASK_DPU_1\<close> and
  \<open>PC_INTERRUPT_CLEAR_DPU_0 | PC_INTERRUPT_CLEAR_DPU_1\<close> are in a header that is not among
  the sources, so a write of them is recorded by name (\<open>DPU_0_DPU_1\<close>).\<close>

datatype reg =
    PC_OPERATION_ENABLE | PC_BASE_ADDRESS | PC_REGISTER_AMOUNTS
  | PC_INTERRUPT_MASK | PC_INTERRUPT_CLEAR | PC_INTERRUPT_STATUS | PC_INTERRUPT_RAW_STATUS
  | PC_TASK_CON | PC_TASK_DMA_BASE_ADDR | CNA_S_POINTER | CORE_S_POINTER

datatype wval = Val "32 word" | DPU_0_DPU_1

datatype effect =
    Writel reg wval
  | Readl reg
  | Fence_signal fence_ref
  | Iommu_attach_group nat
  | Iommu_detach_group
  | Pm_runtime_get_sync
  | Pm_runtime_put_autosuspend
  | Pm_runtime_put_noidle
  | Pm_runtime_mark_last_busy
  | Pm_runtime_force_suspend
  | Pm_runtime_force_resume
  | Synchronize_irq
  | Drm_sched_stop "job_ref option"
  | Drm_sched_increase_karma job_ref
  | Drm_sched_resubmit_jobs
  | Drm_sched_start
  | Dev_dbg_submitted "64 word" "32 word"
  | Dev_warn_irq_latency
  | Dev_err_sched_timeout
  | Warn_on_dma_read_error

text \<open>\<open>struct rocket_core\<close>, as far as the job engine uses it, and the state the engine
  works on: one core, the jobs and fences allocated so far, the effects so far, and the
  scheduler's list of jobs handed to the hardware and not finished.\<close>

record rocket_core =
  index :: "32 word"
  reset_pending :: bool
  in_flight_job :: "job_ref option"
  emit_seqno :: "64 word"

record npu_state =
  core :: rocket_core
  jobs :: "rocket_job list"
  fences :: "dma_fence list"
  effects :: "effect list"
  sched_pending :: "job_ref list"
  sched_resubmitted :: "job_ref list"

definition emit :: "effect list \<Rightarrow> npu_state \<Rightarrow> npu_state" where
  "emit es s = s\<lparr>effects := effects s @ es\<rparr>"

definition job_at :: "npu_state \<Rightarrow> job_ref \<Rightarrow> rocket_job option" where
  "job_at s j = (if j < length (jobs s) then Some (jobs s ! j) else None)"

definition fence_at :: "npu_state \<Rightarrow> fence_ref \<Rightarrow> dma_fence option" where
  "fence_at s f = (if f < length (fences s) then Some (fences s ! f) else None)"

definition job_upd :: "job_ref \<Rightarrow> (rocket_job \<Rightarrow> rocket_job) \<Rightarrow> npu_state \<Rightarrow> npu_state" where
  "job_upd j g s = s\<lparr>jobs := (jobs s)[j := g (jobs s ! j)]\<rparr>"

definition set_in_flight :: "job_ref option \<Rightarrow> npu_state \<Rightarrow> npu_state" where
  "set_in_flight v s = s\<lparr>core := (core s)\<lparr>in_flight_job := v\<rparr>\<rparr>"

definition set_reset_pending :: "bool \<Rightarrow> npu_state \<Rightarrow> npu_state" where
  "set_reset_pending v s = s\<lparr>core := (core s)\<lparr>reset_pending := v\<rparr>\<rparr>"

subsection \<open>Fences\<close>

text \<open>\<open>rocket_fence_create\<close> (lines 44-56): \<open>kzalloc\<close> may fail, which gives
  \<open>ERR_PTR(-ENOMEM)\<close> (\<open>None\<close> here); otherwise a fresh unsignaled fence is initialised with
  the pre-incremented \<open>emit_seqno\<close> of the core.\<close>

definition rocket_fence_create :: "bool \<Rightarrow> npu_state \<Rightarrow> fence_ref option \<times> npu_state" where
  "rocket_fence_create alloc_ok s =
     (if \<not> alloc_ok then (None, s)
      else
        let sq = emit_seqno (core s) + 1
        in (Some (length (fences s)),
            s\<lparr>core := (core s)\<lparr>emit_seqno := sq\<rparr>,
              fences := fences s @ [\<lparr>seqno = sq, signaled = False\<rparr>]\<rparr>))"

text \<open>Modelled from the spec: \<open>dma_fence_signal_locked\<close> and \<open>dma_fence_is_signaled\<close> belong
  to the kernel's fence library, which is not among the sources. The spec: a fence is
  created unsignaled, \<open>signal()\<close> "fails if already signaled (caller bug, logged, otherwise
  no-op)", \<open>is_signaled()\<close> is a non-blocking poll. Every call of the signal function is
  recorded as a \<open>Fence_signal\<close> effect, also one on a fence that is signaled already.\<close>

definition dma_fence_signal_locked :: "fence_ref \<Rightarrow> npu_state \<Rightarrow> npu_state option" where
  "dma_fence_signal_locked f s =
     (case fence_at s f of
        None \<Rightarrow> None
      | Some fe \<Rightarrow>
          Some (emit [Fence_signal f]
            (if signaled fe then s else s\<lparr>fences := (fences s)[f := fe\<lparr>signaled := True\<rparr>]\<rparr>)))"

definition dma_fence_is_signaled :: "npu_state \<Rightarrow> fence_ref \<Rightarrow> bool option" where
  "dma_fence_is_signaled s f = map_option signaled (fence_at s f)"

subsection \<open>Dispatch\<close>

text \<open>The register writes of \<open>rocket_job_hw_submit\<close> (lines 127-144) for one task on the
  core with the given index, in program order. \<open>task_pp_en\<close> and \<open>task_count\<close> are the
  \<open>bool\<close> locals, both 1; \<open>writel\<close> stores the low 32 bits of \<open>regcmd\<close>.\<close>

definition hw_submit_writes :: "32 word \<Rightarrow> rocket_task \<Rightarrow> effect list" where
  "hw_submit_writes ix task =
     [Writel PC_BASE_ADDRESS (Val 0x1),
      Writel CNA_S_POINTER (Val (0xe + 0x10000000 * ix)),
      Writel CORE_S_POINTER (Val (0xe + 0x10000000 * ix)),
      Writel PC_BASE_ADDRESS (Val (ucast (regcmd task))),
      Writel PC_REGISTER_AMOUNTS (Val ((regcmd_count task + 1) div 2 - 1)),
      Writel PC_INTERRUPT_MASK DPU_0_DPU_1,
      Writel PC_INTERRUPT_CLEAR DPU_0_DPU_1,
      Writel PC_TASK_CON (Val (push_bit 12 (0x6 OR 1) OR 1)),
      Writel PC_TASK_DMA_BASE_ADDR (Val 0x0),
      Writel PC_OPERATION_ENABLE (Val 0x1),
      Dev_dbg_submitted (regcmd task) ix]"

text \<open>\<open>rocket_job_hw_submit\<close> (lines 112-145): nothing at all while a reset is pending;
  otherwise the task at the cursor is taken, the cursor is advanced and the task is
  programmed and started. Reading a task beyond the array has no defined behaviour.\<close>

definition rocket_job_hw_submit :: "npu_state \<Rightarrow> job_ref \<Rightarrow> npu_state option" where
  "rocket_job_hw_submit s j =
     (if reset_pending (core s) then Some s
      else
        (case job_at s j of
           None \<Rightarrow> None
         | Some job \<Rightarrow>
             if length (tasks job) \<le> unat (next_task_idx job) then None
             else
               let task = tasks job ! unat (next_task_idx job);
                   s1 = job_upd j (\<lambda>jb. jb\<lparr>next_task_idx := next_task_idx jb + 1\<rparr>) s
               in Some (emit (hw_submit_writes (index (core s)) task) s1)))"

text \<open>\<open>rocket_job_run\<close> (lines 277-317), the scheduler's \<open>run_job\<close> callback. Its result is
  NULL, an error pointer or the new hardware fence. The outcomes of the calls into the
  allocator, runtime PM and the IOMMU are inputs.\<close>

datatype errno = EINVAL | ENOMEM | EFAULT | ENOENT | EOTHER int

datatype run_result = Ret_NULL | Ret_ERR errno | Ret_fence fence_ref

record run_env =
  fence_alloc_ok :: bool
  pm_runtime_get_sync_ret :: int
  iommu_attach_group_ret :: int

definition rocket_job_run :: "run_env \<Rightarrow> npu_state \<Rightarrow> job_ref \<Rightarrow> (run_result \<times> npu_state) option" where
  "rocket_job_run env s j =
     (case job_at s j of
        None \<Rightarrow> None
      | Some job \<Rightarrow>
          if finished_error job \<noteq> 0 then Some (Ret_NULL, s)
          else if next_task_idx job = task_count job then Some (Ret_NULL, s)
          else
            (case rocket_fence_create (fence_alloc_ok env) s of
               (None, s1) \<Rightarrow> Some (Ret_ERR ENOMEM, s1)
             | (Some f, s1) \<Rightarrow>
                 let s2 = job_upd j (\<lambda>jb. jb\<lparr>done_fence := Some f\<rparr>) s1;
                     s3 = emit [Pm_runtime_get_sync] s2
                 in
                   if pm_runtime_get_sync_ret env < 0 then Some (Ret_fence f, s3)
                   else
                     let s4 = emit [Iommu_attach_group (domain job)] s3
                     in
                       if iommu_attach_group_ret env < 0 then Some (Ret_fence f, s4)
                       else
                         (case rocket_job_hw_submit (set_in_flight (Some j) s4) j of
                            None \<Rightarrow> None
                          | Some s5 \<Rightarrow> Some (Ret_fence f, s5))))"

subsection \<open>Completion\<close>

text \<open>\<open>rocket_job_handle_done\<close> (lines 319-331).\<close>

definition rocket_job_handle_done :: "npu_state \<Rightarrow> job_ref \<Rightarrow> npu_state option" where
  "rocket_job_handle_done s j =
     (case job_at s j of
        None \<Rightarrow> None
      | Some job \<Rightarrow>
          if next_task_idx job < task_count job then rocket_job_hw_submit s j
          else
            (case done_fence job of
               None \<Rightarrow> None
             | Some f \<Rightarrow>
                 map_option (emit [Pm_runtime_put_autosuspend])
                   (dma_fence_signal_locked f
                     (emit [Iommu_detach_group] (set_in_flight None s)))))"

text \<open>The bookkeeping every run of \<open>rocket_job_handle_irq\<close> does before it looks at the
  in-flight slot (lines 337-343): the two status registers are read (and the values are
  not used), the operation is disabled and all interrupts are cleared.\<close>

definition irq_ack :: "effect list" where
  "irq_ack =
     [Pm_runtime_mark_last_busy,
      Readl PC_INTERRUPT_STATUS,
      Readl PC_INTERRUPT_RAW_STATUS,
      Writel PC_OPERATION_ENABLE (Val 0x0),
      Writel PC_INTERRUPT_CLEAR (Val 0x1ffff)]"

text \<open>\<open>rocket_job_handle_irq\<close> (lines 333-348), the bottom half.\<close>

definition rocket_job_handle_irq :: "npu_state \<Rightarrow> npu_state option" where
  "rocket_job_handle_irq s =
     (let s1 = emit irq_ack s
      in case in_flight_job (core s1) of
           None \<Rightarrow> Some s1
         | Some j \<Rightarrow> rocket_job_handle_done s1 j)"

text \<open>The top half \<open>rocket_job_irq_handler\<close> (lines 490-505) and the threaded handler
  \<open>rocket_job_irq_handler_thread\<close> (lines 481-488). The raw status register is an input
  from the hardware; the masks that select its bits are not among the sources, so the
  value read is given by the bits the handler tests.\<close>

record raw_status =
  dpu_0 :: bool
  dpu_1 :: bool
  dma_read_error :: bool

datatype irqreturn = IRQ_NONE | IRQ_HANDLED | IRQ_WAKE_THREAD

definition rocket_job_irq_handler :: "npu_state \<Rightarrow> raw_status \<Rightarrow> irqreturn \<times> npu_state" where
  "rocket_job_irq_handler s raw =
     (let s1 = emit (Readl PC_INTERRUPT_RAW_STATUS #
                     (if dma_read_error raw
                      then [Warn_on_dma_read_error, Warn_on_dma_read_error] else [])) s
      in if \<not> (dpu_0 raw \<or> dpu_1 raw) then (IRQ_NONE, s1)
         else (IRQ_WAKE_THREAD, emit [Writel PC_INTERRUPT_MASK (Val 0x0)] s1))"

definition rocket_job_irq_handler_thread :: "npu_state \<Rightarrow> (irqreturn \<times> npu_state) option" where
  "rocket_job_irq_handler_thread s = map_option (Pair IRQ_HANDLED) (rocket_job_handle_irq s)"

text \<open>One interrupt on the core's line, as the kernel's threaded-interrupt code runs the
  two handlers registered by \<open>devm_request_threaded_irq\<close> (line 526): the thread runs only
  when the top half asks for it.\<close>

definition irq_line :: "npu_state \<Rightarrow> raw_status \<Rightarrow> npu_state option" where
  "irq_line s raw =
     (case rocket_job_irq_handler s raw of
        (IRQ_WAKE_THREAD, s1) \<Rightarrow> map_option snd (rocket_job_irq_handler_thread s1)
      | (_, s1) \<Rightarrow> Some s1)"

subsection \<open>Timeout and reset\<close>

text \<open>\<open>synchronize_irq\<close> returns once a handler of the line that is running has finished.
  Whether the threaded handler is running when it is called is an input.\<close>

definition synchronize_irq :: "bool \<Rightarrow> npu_state \<Rightarrow> npu_state option" where
  "synchronize_irq handler_running s =
     (if handler_running then rocket_job_handle_irq (emit [Synchronize_irq] s)
      else Some (emit [Synchronize_irq] s))"

text \<open>Modelled from the spec: the DRM scheduler (\<open>drm_sched_stop\<close>,
  \<open>drm_sched_increase_karma\<close>, \<open>drm_sched_resubmit_jobs\<close>, \<open>drm_sched_start\<close>) is not among
  the sources. The spec: the recovery path must "resubmit previously-queued-but-unexecuted
  jobs to the scheduler (their progress cursor is preserved ...), and restart dispatch".
  The calls are recorded as effects; resubmission hands the scheduler's pending jobs back
  to it for another \<open>run_job\<close>, which the scheduler calls later.\<close>

definition drm_sched_stop :: "job_ref option \<Rightarrow> npu_state \<Rightarrow> npu_state" where
  "drm_sched_stop bad s = emit [Drm_sched_stop bad] s"

definition drm_sched_increase_karma :: "job_ref \<Rightarrow> npu_state \<Rightarrow> npu_state" where
  "drm_sched_increase_karma bad s = emit [Drm_sched_increase_karma bad] s"

definition drm_sched_resubmit_jobs :: "npu_state \<Rightarrow> npu_state" where
  "drm_sched_resubmit_jobs s =
     emit [Drm_sched_resubmit_jobs] (s\<lparr>sched_resubmitted := sched_pending s\<rparr>)"

definition drm_sched_start :: "npu_state \<Rightarrow> npu_state" where
  "drm_sched_start s = emit [Drm_sched_start] s"

text \<open>\<open>rocket_reset\<close> (lines 350-427). The second argument is \<open>bad\<close> (NULL is \<open>None\<close>), the
  first says whether a handler is running at the \<open>synchronize_irq\<close> of line 384.\<close>

definition rocket_reset :: "bool \<Rightarrow> npu_state \<Rightarrow> job_ref option \<Rightarrow> npu_state option" where
  "rocket_reset handler_running s bad =
     (if \<not> reset_pending (core s) then Some s
      else
        let s1 = drm_sched_stop bad s;
            s2 = (case bad of None \<Rightarrow> s1 | Some b \<Rightarrow> drm_sched_increase_karma b s1);
            s3 = emit [Writel PC_INTERRUPT_MASK (Val 0x0)] s2
        in
          (case synchronize_irq handler_running s3 of
             None \<Rightarrow> None
           | Some s4 \<Rightarrow>
               (case rocket_job_handle_irq s4 of
                  None \<Rightarrow> None
                | Some s5 \<Rightarrow>
                    let s6 = (if in_flight_job (core s5) \<noteq> None
                              then emit [Pm_runtime_put_noidle] s5 else s5);
                        s7 = set_in_flight None s6;
                        s8 = emit [Pm_runtime_force_suspend, Pm_runtime_force_resume] s7;
                        s9 = set_reset_pending False s8
                    in Some (drm_sched_start (drm_sched_resubmit_jobs s9)))))"

text \<open>\<open>rocket_job_timedout\<close> (lines 429-465), the scheduler's \<open>timedout_job\<close> callback. It
  returns \<open>DRM_GPU_SCHED_STAT_NOMINAL\<close> on every path, so only the state is returned.
  \<open>done_fence_signaled\<close> is the expression \<open>dma_fence_is_signaled(job->done_fence)\<close>.\<close>

record timeout_env =
  handler_running_at_recheck :: bool
  handler_running_at_reset :: bool

definition done_fence_signaled :: "npu_state \<Rightarrow> job_ref \<Rightarrow> bool option" where
  "done_fence_signaled s j =
     Option.bind (Option.bind (job_at s j) done_fence) (dma_fence_is_signaled s)"

definition rocket_job_timedout :: "timeout_env \<Rightarrow> npu_state \<Rightarrow> job_ref \<Rightarrow> npu_state option" where
  "rocket_job_timedout env s j =
     (case done_fence_signaled s j of
        None \<Rightarrow> None
      | Some sig0 \<Rightarrow>
          if sig0 then Some s
          else
            (case synchronize_irq (handler_running_at_recheck env) s of
               None \<Rightarrow> None
             | Some s1 \<Rightarrow>
                 (case done_fence_signaled s1 j of
                    None \<Rightarrow> None
                  | Some sig1 \<Rightarrow>
                      if sig1 then Some (emit [Dev_warn_irq_latency] s1)
                      else
                        map_option (emit [Iommu_detach_group])
                          (rocket_reset (handler_running_at_reset env)
                             (set_reset_pending True (emit [Dev_err_sched_timeout] s1))
                             (Some j)))))"

text \<open>\<open>rocket_reset_work\<close> (lines 467-473).\<close>

definition rocket_reset_work :: "bool \<Rightarrow> npu_state \<Rightarrow> npu_state option" where
  "rocket_reset_work handler_running s = rocket_reset handler_running s None"

subsection \<open>Runs of the engine\<close>

text \<open>The entry points through which the scheduler, the interrupt line and the reset work
  item drive one core: \<open>run_job\<close>, an interrupt with the raw status the top half reads,
  \<open>timedout_job\<close>, and the reset work item.\<close>

datatype event =
    Run_job job_ref run_env
  | Irq raw_status
  | Timedout job_ref timeout_env
  | Reset_work bool

definition step :: "npu_state \<Rightarrow> event \<Rightarrow> npu_state option" where
  "step s e =
     (case e of
        Run_job j env \<Rightarrow> map_option snd (rocket_job_run env s j)
      | Irq raw \<Rightarrow> irq_line s raw
      | Timedout j env \<Rightarrow> rocket_job_timedout env s j
      | Reset_work hr \<Rightarrow> rocket_reset_work hr s)"

fun exec :: "npu_state \<Rightarrow> event list \<Rightarrow> npu_state option" where
  "exec s [] = Some s"
| "exec s (e # es) = (case step s e of None \<Rightarrow> None | Some s1 \<Rightarrow> exec s1 es)"

text \<open>The scheduler calls its callbacks with jobs that exist, and \<open>timedout_job\<close> only for
  a job whose \<open>run_job\<close> has returned a fence.\<close>

definition event_ok :: "npu_state \<Rightarrow> event \<Rightarrow> bool" where
  "event_ok s e =
     (case e of
        Run_job j env \<Rightarrow> j < length (jobs s)
      | Irq raw \<Rightarrow> True
      | Timedout j env \<Rightarrow> j < length (jobs s) \<and> done_fence (jobs s ! j) \<noteq> None
      | Reset_work hr \<Rightarrow> True)"

fun events_ok :: "npu_state \<Rightarrow> event list \<Rightarrow> bool" where
  "events_ok s [] = True"
| "events_ok s (e # es) =
     (event_ok s e \<and> (case step s e of None \<Rightarrow> True | Some s1 \<Rightarrow> events_ok s1 es))"

text \<open>The number of completion interrupts a list of events carries: an interrupt whose raw
  status has one of the two bits the top half tests, or a threaded handler (woken by such
  an interrupt) that is still running when \<open>synchronize_irq\<close> is called.\<close>

definition completion_irqs :: "event \<Rightarrow> nat" where
  "completion_irqs e =
     (case e of
        Run_job j env \<Rightarrow> 0
      | Irq raw \<Rightarrow> (if dpu_0 raw \<or> dpu_1 raw then 1 else 0)
      | Timedout j env \<Rightarrow>
          (if handler_running_at_recheck env then 1 else 0) +
          (if handler_running_at_reset env then 1 else 0)
      | Reset_work hr \<Rightarrow> (if hr then 1 else 0))"

definition completions_observed :: "event list \<Rightarrow> nat" where
  "completions_observed es = sum_list (map completion_irqs es)"

text \<open>The number of tasks started so far: the writes of 1 to \<open>OPERATION_ENABLE\<close>; the
  number of hardware resets so far; the number of calls of the signal function on a fence.\<close>

definition dispatches :: "npu_state \<Rightarrow> nat" where
  "dispatches s = count_list (effects s) (Writel PC_OPERATION_ENABLE (Val 0x1))"

definition resets :: "npu_state \<Rightarrow> nat" where
  "resets s = count_list (effects s) Pm_runtime_force_suspend"

definition signals :: "npu_state \<Rightarrow> fence_ref \<Rightarrow> nat" where
  "signals s f = count_list (effects s) (Fence_signal f)"

text \<open>Well-formed states. A job's cursor is within its task array, which has
  \<open>task_count\<close> entries; its hardware fence exists and, if signaled, the cursor is at the
  end; no two jobs share a hardware fence; the job in the in-flight slot exists and its
  hardware fence is unsignaled; the recorded calls of the signal function are those of
  the signaled fences, one each.\<close>

definition job_wf :: "dma_fence list \<Rightarrow> rocket_job \<Rightarrow> bool" where
  "job_wf fs job =
     (next_task_idx job \<le> task_count job \<and>
      length (tasks job) = unat (task_count job) \<and>
      (case done_fence job of
         None \<Rightarrow> True
       | Some f \<Rightarrow> f < length fs \<and> (signaled (fs ! f) \<longrightarrow> next_task_idx job = task_count job)))"

definition in_flight_wf :: "npu_state \<Rightarrow> bool" where
  "in_flight_wf s =
     (case in_flight_job (core s) of
        None \<Rightarrow> True
      | Some j \<Rightarrow>
          j < length (jobs s) \<and>
          (case done_fence (jobs s ! j) of
             None \<Rightarrow> False
           | Some f \<Rightarrow> \<not> signaled (fences s ! f)))"

definition effect_wf :: "nat \<Rightarrow> effect \<Rightarrow> bool" where
  "effect_wf n e = (case e of Fence_signal f \<Rightarrow> f < n | _ \<Rightarrow> True)"

definition signals_wf :: "npu_state \<Rightarrow> bool" where
  "signals_wf s =
     (list_all (\<lambda>f. signals s f = (if signaled (fences s ! f) then 1 else 0))
        [0..<length (fences s)] \<and>
      list_all (effect_wf (length (fences s))) (effects s))"

definition jobs_distinct :: "rocket_job list \<Rightarrow> bool" where
  "jobs_distinct js =
     list_all (\<lambda>i. list_all (\<lambda>j. i \<noteq> j \<longrightarrow> done_fence (js ! i) \<noteq> None \<longrightarrow>
                                  done_fence (js ! i) \<noteq> done_fence (js ! j))
                        [0..<length js])
       [0..<length js]"

definition state_wf :: "npu_state \<Rightarrow> bool" where
  "state_wf s =
     (list_all (job_wf (fences s)) (jobs s) \<and>
      jobs_distinct (jobs s) \<and>
      in_flight_wf s \<and>
      signals_wf s)"

text \<open>How a state may differ from an earlier one: the same jobs with the same tasks,
  cursors that have not moved back and a hardware fence where there was one; the same
  fences (and possibly new ones), none of which has lost its signaled bit; and as many
  tasks started in between as the cursors have advanced in total (\<open>issued\<close> is the sum of
  the cursors).\<close>

definition job_progress :: "rocket_job \<Rightarrow> rocket_job \<Rightarrow> bool" where
  "job_progress a b =
     (tasks b = tasks a \<and> task_count b = task_count a \<and>
      next_task_idx a \<le> next_task_idx b \<and>
      (done_fence a \<noteq> None \<longrightarrow> done_fence b \<noteq> None))"

definition fence_kept :: "dma_fence \<Rightarrow> dma_fence \<Rightarrow> bool" where
  "fence_kept a b = (seqno b = seqno a \<and> (signaled a \<longrightarrow> signaled b))"

definition issued :: "npu_state \<Rightarrow> nat" where
  "issued s = sum_list (map (\<lambda>jb. unat (next_task_idx jb)) (jobs s))"

definition evolves :: "npu_state \<Rightarrow> npu_state \<Rightarrow> bool" where
  "evolves s t =
     (list_all2 job_progress (jobs s) (jobs t) \<and>
      length (fences s) \<le> length (fences t) \<and>
      list_all2 fence_kept (fences s) (take (length (fences s)) (fences t)) \<and>
      dispatches t + issued s = dispatches s + issued t)"

section \<open>Submission\<close>

subsection \<open>Data\<close>

text \<open>The ioctl's argument structures \<open>drm_rocket_task\<close>, \<open>drm_rocket_job\<close> and
  \<open>drm_rocket_submit\<close>. The header that declares them is not among the sources; the fields
  are the ones rocket\_job.c reads, with the prefixes \<open>task_\<close>, \<open>job_\<close> and \<open>submit_\<close> to tell
  them apart. Fields that hold user pointers are 64-bit values.\<close>

record drm_rocket_task =
  task_regcmd :: "64 word"
  task_regcmd_count :: "32 word"
  task_reserved :: "32 word"

record drm_rocket_job =
  job_tasks :: "64 word"
  job_in_bo_handles :: "64 word"
  job_out_bo_handles :: "64 word"
  job_task_count :: "32 word"
  job_in_bo_handle_count :: "32 word"
  job_out_bo_handle_count :: "32 word"
  job_reserved :: "32 word"

record drm_rocket_submit =
  submit_jobs :: "64 word"
  submit_job_count :: "32 word"
  submit_reserved :: "32 word"

text \<open>User memory, by what an address holds: an array of tasks, of handles or of jobs
  (\<open>None\<close>: the address is not readable). \<open>copy_from_user\<close> of \<open>n\<close> elements fails when
  fewer are readable; a copy of no element reads nothing and succeeds, whatever the
  address.\<close>

record user_mem =
  mem_tasks :: "64 word \<Rightarrow> drm_rocket_task list option"
  mem_handles :: "64 word \<Rightarrow> 32 word list option"
  mem_jobs :: "64 word \<Rightarrow> drm_rocket_job list option"

definition copy_from_user :: "'a list option \<Rightarrow> nat \<Rightarrow> 'a list option" where
  "copy_from_user src n =
     (if n = 0 then Some []
      else
        (case src of
           None \<Rightarrow> None
         | Some xs \<Rightarrow> if n \<le> length xs then Some (take n xs) else None))"

text \<open>\<open>struct drm_file\<close> with the driver's \<open>rocket_file_priv\<close>: the handle table of the
  caller's context and its IOMMU domain.\<close>

record drm_file =
  handles :: "32 word \<Rightarrow> bo_ref option"
  file_domain :: nat

text \<open>Modelled from the spec: the reservation object of a buffer (\<open>dma_resv\<close>) and
  \<open>dma_resv_add_fence\<close> are not among the sources. The spec: a buffer "carries a small
  history of in-use fences: the most recent writer fence and the set of reader fences since
  the last writer"; a new writer fence "becomes the buffer's writer fence, replacing the
  prior writer fence and clearing the reader-fence set"; a new reader fence "is added to
  the buffer's reader-fence set (without replacing the writer fence)".\<close>

record dma_resv =
  writer :: "sched_fence option"
  readers :: "sched_fence list"

datatype dma_resv_usage = DMA_RESV_USAGE_WRITE | DMA_RESV_USAGE_READ

definition dma_resv_add_fence :: "dma_resv \<Rightarrow> sched_fence \<Rightarrow> dma_resv_usage \<Rightarrow> dma_resv" where
  "dma_resv_add_fence r f usage =
     (case usage of
        DMA_RESV_USAGE_WRITE \<Rightarrow> \<lparr>writer = Some f, readers = []\<rparr>
      | DMA_RESV_USAGE_READ \<Rightarrow> r\<lparr>readers := f # readers r\<rparr>)"

text \<open>The device as the submission path sees it: the reservation object of every buffer,
  the queue of the scheduler entity jobs are pushed to, and the next fence the scheduler
  hands out.\<close>

record rocket_device =
  resv :: "bo_ref \<Rightarrow> dma_resv"
  entity_queue :: "rocket_job list"
  fence_seq :: nat

text \<open>The outcomes of the calls that can fail for lack of memory or inside another
  subsystem, as inputs (\<open>None\<close>: the call returned 0).\<close>

record submit_env =
  kzalloc_job_ok :: bool
  drm_sched_job_init_ret :: "errno option"
  kvmalloc_tasks_ok :: bool
  kvmalloc_job_tasks_ok :: bool
  kvmalloc_bos_ok :: bool
  lock_reservations_ret :: "errno option"
  reserve_fences_ret :: "bo_ref \<Rightarrow> errno option"
  add_dependencies_ret :: "bo_ref \<Rightarrow> errno option"

subsection \<open>Copying the tasks\<close>

text \<open>The loop of \<open>rocket_copy_tasks\<close> (lines 93-105) over the tasks copied from user
  memory: the first task with a non-zero reserved field or a zero command count ends it
  with \<open>-EINVAL\<close>.\<close>

fun copy_tasks_loop :: "drm_rocket_task list \<Rightarrow> errno + rocket_task list" where
  "copy_tasks_loop [] = Inr []"
| "copy_tasks_loop (t # ts) =
     (if task_reserved t \<noteq> 0 then Inl EINVAL
      else if task_regcmd_count t = 0 then Inl EINVAL
      else
        (case copy_tasks_loop ts of
           Inl e \<Rightarrow> Inl e
         | Inr rs \<Rightarrow> Inr (\<lparr>regcmd = task_regcmd t, regcmd_count = task_regcmd_count t\<rparr> # rs)))"

text \<open>\<open>rocket_copy_tasks\<close> (lines 58-110).\<close>

definition rocket_copy_tasks ::
  "submit_env \<Rightarrow> user_mem \<Rightarrow> drm_rocket_job \<Rightarrow> rocket_job \<Rightarrow> errno + rocket_job" where
  "rocket_copy_tasks env um job rjob =
     (let rjob1 = rjob\<lparr>task_count := job_task_count job\<rparr>
      in
        if task_count rjob1 = 0 then Inr rjob1
        else if \<not> kvmalloc_tasks_ok env then Inl ENOMEM
        else
          (case copy_from_user (mem_tasks um (job_tasks job)) (unat (task_count rjob1)) of
             None \<Rightarrow> Inl EFAULT
           | Some ts \<Rightarrow>
               if \<not> kvmalloc_job_tasks_ok env then Inl ENOMEM
               else
                 (case copy_tasks_loop ts of
                    Inl e \<Rightarrow> Inl e
                  | Inr rs \<Rightarrow> Inr (rjob1\<lparr>tasks := rs\<rparr>))))"

subsection \<open>Pushing a job\<close>

text \<open>Modelled from the spec: \<open>drm_sched_job_arm\<close>, \<open>drm_sched_job_add_implicit_dependencies\<close>
  and \<open>drm_sched_entity_push_job\<close> belong to the DRM scheduler, which is not among the
  sources. The spec: a fence is "created unsignaled when a job is armed for execution";
  "before dispatch, a job must wait on: the prior writer fence of every buffer it reads,
  and the prior writer fence plus all prior reader fences of every buffer it writes"; the
  job then "enters the priority-specific admission queue of a scheduling entity"; and "the
  job is not dispatched to hardware until those fences are already signaled".\<close>

definition drm_sched_job_arm :: "rocket_device \<Rightarrow> sched_fence \<times> rocket_device" where
  "drm_sched_job_arm dev = (fence_seq dev, dev\<lparr>fence_seq := fence_seq dev + 1\<rparr>)"

definition drm_sched_job_add_implicit_dependencies ::
  "errno option \<Rightarrow> rocket_job \<Rightarrow> dma_resv \<Rightarrow> bool \<Rightarrow> errno + rocket_job" where
  "drm_sched_job_add_implicit_dependencies ret job r is_write =
     (case ret of
        Some e \<Rightarrow> Inl e
      | None \<Rightarrow>
          Inr (job\<lparr>dependencies :=
                 dependencies job @
                 (case writer r of None \<Rightarrow> [] | Some f \<Rightarrow> [f]) @
                 (if is_write then readers r else [])\<rparr>))"

definition drm_sched_entity_push_job :: "rocket_job \<Rightarrow> rocket_device \<Rightarrow> rocket_device" where
  "drm_sched_entity_push_job job dev = dev\<lparr>entity_queue := entity_queue dev @ [job]\<rparr>"

definition dependencies_signaled :: "(sched_fence \<Rightarrow> bool) \<Rightarrow> rocket_job \<Rightarrow> bool" where
  "dependencies_signaled is_sig job = list_all is_sig (dependencies job)"

text \<open>The fences the spec asks a job to wait for on one buffer: the prior writer fence,
  and for a buffer the job writes the prior reader fences as well.\<close>

definition hazard_fences :: "dma_resv \<Rightarrow> bool \<Rightarrow> sched_fence list" where
  "hazard_fences r is_write =
     (case writer r of None \<Rightarrow> [] | Some f \<Rightarrow> [f]) @ (if is_write then readers r else [])"

text \<open>\<open>rocket_acquire_object_fences\<close> (lines 147-166).\<close>

fun rocket_acquire_object_fences ::
  "submit_env \<Rightarrow> (bo_ref \<Rightarrow> dma_resv) \<Rightarrow> bo_ref list \<Rightarrow> rocket_job \<Rightarrow> bool \<Rightarrow> errno + rocket_job" where
  "rocket_acquire_object_fences env rs [] job is_write = Inr job"
| "rocket_acquire_object_fences env rs (b # bs) job is_write =
     (case reserve_fences_ret env b of
        Some e \<Rightarrow> Inl e
      | None \<Rightarrow>
          (case drm_sched_job_add_implicit_dependencies
                  (add_dependencies_ret env b) job (rs b) is_write of
             Inl e \<Rightarrow> Inl e
           | Inr job1 \<Rightarrow> rocket_acquire_object_fences env rs bs job1 is_write))"

text \<open>\<open>rocket_attach_object_fences\<close> (lines 168-176).\<close>

fun rocket_attach_object_fences ::
  "bo_ref list \<Rightarrow> sched_fence \<Rightarrow> (bo_ref \<Rightarrow> dma_resv) \<Rightarrow> (bo_ref \<Rightarrow> dma_resv)" where
  "rocket_attach_object_fences [] f rs = rs"
| "rocket_attach_object_fences (b # bs) f rs =
     rocket_attach_object_fences bs f
       (rs(b := dma_resv_add_fence (rs b) f DMA_RESV_USAGE_WRITE))"

text \<open>\<open>rocket_job_push\<close> (lines 178-220). The result of \<open>kvmalloc_array\<close> is used
  unchecked: when it is NULL and there is a buffer to copy, \<open>memcpy\<close> writes through NULL
  (\<open>None\<close>). The outer result is the returned code and the device.\<close>

definition rocket_job_push ::
  "submit_env \<Rightarrow> rocket_device \<Rightarrow> rocket_job \<Rightarrow> (errno option \<times> rocket_device) option" where
  "rocket_job_push env dev job =
     (if \<not> kvmalloc_bos_ok env \<and> in_bos job @ out_bos job \<noteq> [] then None
      else
        (case lock_reservations_ret env of
           Some e \<Rightarrow> Some (Some e, dev)
         | None \<Rightarrow>
             (case drm_sched_job_arm dev of
                (fin, dev1) \<Rightarrow>
                  let job1 = job\<lparr>inference_done_fence := Some fin\<rparr>
                  in
                    (case rocket_acquire_object_fences env (resv dev1) (in_bos job1) job1 False of
                       Inl e \<Rightarrow> Some (Some e, dev1)
                     | Inr job2 \<Rightarrow>
                         (case rocket_acquire_object_fences env (resv dev1) (out_bos job2) job2 True of
                            Inl e \<Rightarrow> Some (Some e, dev1)
                          | Inr job3 \<Rightarrow>
                              let dev2 = drm_sched_entity_push_job job3 dev1
                              in Some (None,
                                   dev2\<lparr>resv := rocket_attach_object_fences
                                                   (out_bos job3) fin (resv dev2)\<rparr>))))))"

subsection \<open>The ioctl\<close>

text \<open>Modelled from the spec: \<open>drm_gem_objects_lookup\<close> is not among the sources. The spec:
  the submission is rejected "with \<open>INVALID_HANDLE\<close> if any buffer handle is unknown to the
  caller's context". The handles are read from user memory first.\<close>

fun lookup_handles :: "(32 word \<Rightarrow> bo_ref option) \<Rightarrow> 32 word list \<Rightarrow> bo_ref list option" where
  "lookup_handles tab [] = Some []"
| "lookup_handles tab (h # hs) =
     (case tab h of
        None \<Rightarrow> None
      | Some b \<Rightarrow> map_option (Cons b) (lookup_handles tab hs))"

definition drm_gem_objects_lookup ::
  "drm_file \<Rightarrow> 32 word list option \<Rightarrow> nat \<Rightarrow> errno + bo_ref list" where
  "drm_gem_objects_lookup file src n =
     (case copy_from_user src n of
        None \<Rightarrow> Inl EFAULT
      | Some hs \<Rightarrow>
          (case lookup_handles (handles file) hs of
             None \<Rightarrow> Inl ENOENT
           | Some bs \<Rightarrow> Inr bs))"

text \<open>A job as \<open>kzalloc\<close> returns it: every field zero.\<close>

definition zero_job :: rocket_job where
  "zero_job =
     \<lparr>tasks = [], task_count = 0, next_task_idx = 0, in_bos = [], out_bos = [],
      inference_done_fence = None, done_fence = None, domain = 0, finished_error = 0,
      dependencies = []\<rparr>"

text \<open>\<open>rocket_ioctl_submit_job\<close> (lines 604-660): the returned code (\<open>None\<close> is 0) and the
  device.\<close>

definition rocket_ioctl_submit_job ::
  "submit_env \<Rightarrow> user_mem \<Rightarrow> drm_file \<Rightarrow> rocket_device \<Rightarrow> drm_rocket_job \<Rightarrow>
     (errno option \<times> rocket_device) option" where
  "rocket_ioctl_submit_job env um file dev job =
     (if job_task_count job = 0 then Some (Some EINVAL, dev)
      else if \<not> kzalloc_job_ok env then Some (Some ENOMEM, dev)
      else
        (case drm_sched_job_init_ret env of
           Some e \<Rightarrow> Some (Some e, dev)
         | None \<Rightarrow>
             (case rocket_copy_tasks env um job zero_job of
                Inl e \<Rightarrow> Some (Some e, dev)
              | Inr rjob1 \<Rightarrow>
                  (case drm_gem_objects_lookup file (mem_handles um (job_in_bo_handles job))
                          (unat (job_in_bo_handle_count job)) of
                     Inl e \<Rightarrow> Some (Some e, dev)
                   | Inr ins \<Rightarrow>
                       (case drm_gem_objects_lookup file (mem_handles um (job_out_bo_handles job))
                               (unat (job_out_bo_handle_count job)) of
                          Inl e \<Rightarrow> Some (Some e, dev)
                        | Inr outs \<Rightarrow>
                            rocket_job_push env dev
                              (rjob1\<lparr>in_bos := ins, out_bos := outs,
                                     domain := file_domain file\<rparr>))))))"

text \<open>The loop of \<open>rocket_ioctl_submit\<close> (lines 687-694). The value that
  \<open>rocket_ioctl_submit_job\<close> returns is not used; \<open>ret\<close> is 0 when the loop ends. The first
  argument gives the outcomes of the fallible calls for the job at each position.\<close>

fun submit_jobs_loop ::
  "(nat \<Rightarrow> submit_env) \<Rightarrow> user_mem \<Rightarrow> drm_file \<Rightarrow> nat \<Rightarrow> drm_rocket_job list \<Rightarrow> rocket_device \<Rightarrow>
     (errno option \<times> rocket_device) option" where
  "submit_jobs_loop envs um file i [] dev = Some (None, dev)"
| "submit_jobs_loop envs um file i (job # js) dev =
     (if job_reserved job \<noteq> 0 then Some (Some EINVAL, dev)
      else
        (case rocket_ioctl_submit_job (envs i) um file dev job of
           None \<Rightarrow> None
         | Some (r, dev1) \<Rightarrow> submit_jobs_loop envs um file (Suc i) js dev1))"

text \<open>\<open>rocket_ioctl_submit\<close> (lines 662-700), the submit entry point.\<close>

definition rocket_ioctl_submit ::
  "bool \<Rightarrow> (nat \<Rightarrow> submit_env) \<Rightarrow> user_mem \<Rightarrow> drm_file \<Rightarrow> rocket_device \<Rightarrow> drm_rocket_submit \<Rightarrow>
     (errno option \<times> rocket_device) option" where
  "rocket_ioctl_submit kvmalloc_jobs_ok envs um file dev args =
     (if submit_reserved args \<noteq> 0 then Some (Some EINVAL, dev)
      else if \<not> kvmalloc_jobs_ok then Some (Some ENOMEM, dev)
      else
        (case copy_from_user (mem_jobs um (submit_jobs args)) (unat (submit_job_count args)) of
           None \<Rightarrow> Some (Some EFAULT, dev)
         | Some js \<Rightarrow> submit_jobs_loop envs um file 0 js dev))"

section \<open>Submission, scheduler and engine together\<close>

text \<open>The two sides of the driver meet in the DRM scheduler: what \<open>rocket_job_push\<close> queues
  is later handed to \<open>rocket_job_run\<close>. The state of the whole is the state of the engine,
  whose job store is the queue of the scheduler entity (job \<open>j\<close> is the \<open>j\<close>-th job pushed),
  the reservation objects of the buffers, the next fence the scheduler hands out, the
  scheduler fences signaled so far, and the jobs for which the scheduler has called
  \<open>run_job\<close> so far.\<close>

record system =
  npu :: npu_state
  sys_resv :: "bo_ref \<Rightarrow> dma_resv"
  sys_fence_seq :: nat
  finished :: "sched_fence list"
  sched_ran :: "job_ref list"

text \<open>The submission path works on the device part of that state.
  \<open>rocket_ioctl_submit_job\<close> is the only caller of \<open>rocket_job_push\<close>; whatever code it
  returns, the device is as it left it.\<close>

definition device_of :: "system \<Rightarrow> rocket_device" where
  "device_of s =
     \<lparr>resv = sys_resv s, entity_queue = jobs (npu s), fence_seq = sys_fence_seq s\<rparr>"

definition with_device :: "rocket_device \<Rightarrow> system \<Rightarrow> system" where
  "with_device dev s =
     s\<lparr>npu := (npu s)\<lparr>jobs := entity_queue dev\<rparr>,
       sys_resv := resv dev, sys_fence_seq := fence_seq dev\<rparr>"

definition sys_submit_job ::
  "submit_env \<Rightarrow> user_mem \<Rightarrow> drm_file \<Rightarrow> drm_rocket_job \<Rightarrow> system \<Rightarrow> system option" where
  "sys_submit_job env um file ujob s =
     map_option (\<lambda>r. with_device (snd r) s)
       (rocket_ioctl_submit_job env um file (device_of s) ujob)"

text \<open>Modelled from the spec: the main loop of the DRM scheduler, which calls \<open>run_job\<close>
  and signals the finished fence of a job, is not among the sources. The spec:
  "dependency-wait is not a blocking wait inside the scheduler - it is encoded as a set of
  fences the job's admission depends on, and the job is not dispatched to hardware until
  those fences are already signaled"; the completion handler completes the job, "signaling
  its Fence", by which "waiters (other jobs' dependencies, or the original submitter) are
  released"; a job that fails has its "done-fence signaled with error status ... tasks not
  yet run are simply dropped, not retried".

  \<open>drm_sched_run_job\<close>: the scheduler considers a queued job. While a fence of its
  dependency set is unsignaled the job stays queued and nothing happens; otherwise
  \<open>run_job\<close> (\<open>rocket_job_run\<close>) is called for it. When that returns no hardware fence (NULL
  or an error) there is nothing to wait for and the job's finished fence is signaled at
  once.

  \<open>drm_sched_job_done\<close>: the scheduler finds the hardware fence of a job (its \<open>done_fence\<close>)
  signaled and signals the job's finished fence, the one \<open>rocket_job_push\<close> has published
  as \<open>inference_done_fence\<close>.\<close>

definition finished_fence :: "rocket_job \<Rightarrow> sched_fence list" where
  "finished_fence job = (case inference_done_fence job of None \<Rightarrow> [] | Some g \<Rightarrow> [g])"

definition drm_sched_run_job :: "run_env \<Rightarrow> system \<Rightarrow> job_ref \<Rightarrow> system option" where
  "drm_sched_run_job env s j =
     (case job_at (npu s) j of
        None \<Rightarrow> None
      | Some job \<Rightarrow>
          if \<not> dependencies_signaled (\<lambda>f. f \<in> set (finished s)) job then Some s
          else
            (case rocket_job_run env (npu s) j of
               None \<Rightarrow> None
             | Some (r, n1) \<Rightarrow>
                 let s1 = s\<lparr>npu := n1, sched_ran := j # sched_ran s\<rparr>
                 in (case r of
                       Ret_fence f \<Rightarrow> Some s1
                     | _ \<Rightarrow> Some (s1\<lparr>finished := finished s1 @ finished_fence job\<rparr>))))"

definition drm_sched_job_done :: "system \<Rightarrow> job_ref \<Rightarrow> system option" where
  "drm_sched_job_done s j =
     (case job_at (npu s) j of
        None \<Rightarrow> None
      | Some job \<Rightarrow>
          (case done_fence job of
             None \<Rightarrow> Some s
           | Some f \<Rightarrow>
               (case dma_fence_is_signaled (npu s) f of
                  None \<Rightarrow> None
                | Some sg \<Rightarrow>
                    if sg then Some (s\<lparr>finished := finished s @ finished_fence job\<rparr>)
                    else Some s)))"

text \<open>A fence that belongs to none of the jobs pushed (one that another device has left on
  a shared buffer) is signaled by its owner, at any time.\<close>

definition signal_elsewhere :: "system \<Rightarrow> sched_fence \<Rightarrow> system" where
  "signal_elsewhere s f =
     (if f < sys_fence_seq s \<and> Some f \<notin> set (map inference_done_fence (jobs (npu s)))
      then s\<lparr>finished := finished s @ [f]\<rparr> else s)"

text \<open>What happens to the whole: a job is submitted (\<open>rocket_ioctl_submit_job\<close>); the
  scheduler, the interrupt line or the reset work item drive the engine, where \<open>run_job\<close>
  is called by the scheduler only; the scheduler finds a job done; a fence of another
  owner is signaled.\<close>

datatype sys_event =
    Submit_job submit_env user_mem drm_file drm_rocket_job
  | Engine event
  | Job_done job_ref
  | Signal_elsewhere sched_fence

definition sys_step :: "system \<Rightarrow> sys_event \<Rightarrow> system option" where
  "sys_step s e =
     (case e of
        Submit_job env um file ujob \<Rightarrow> sys_submit_job env um file ujob s
      | Engine ev \<Rightarrow>
          (case ev of
             Run_job j env \<Rightarrow> drm_sched_run_job env s j
           | _ \<Rightarrow> map_option (\<lambda>n1. s\<lparr>npu := n1\<rparr>) (step (npu s) ev))
      | Job_done j \<Rightarrow> drm_sched_job_done s j
      | Signal_elsewhere f \<Rightarrow> Some (signal_elsewhere s f))"

fun sys_exec :: "system \<Rightarrow> sys_event list \<Rightarrow> system option" where
  "sys_exec s [] = Some s"
| "sys_exec s (e # es) = (case sys_step s e of None \<Rightarrow> None | Some s1 \<Rightarrow> sys_exec s1 es)"

text \<open>The dispatch of a job has begun when the scheduler has called \<open>run_job\<close> for it, or
  when its cursor has left 0 (\<open>rocket_job_hw_submit\<close> advances the cursor as it starts a
  task).\<close>

definition dispatch_begun :: "system \<Rightarrow> job_ref \<Rightarrow> bool" where
  "dispatch_begun s j =
     (j \<in> set (sched_ran s) \<or> next_task_idx (jobs (npu s) ! j) \<noteq> 0)"

text \<open>For the proofs. What submission fixes of a job and the engine never changes; a step
  of the engine that is confined to a set of jobs (only they change, and only one of them
  can be in the in-flight slot afterwards); and the invariant of the whole: the finished
  fences of the jobs are distinct and below the next fence; a job the scheduler has run
  has all its dependencies signaled; a job whose finished fence is signaled has been run;
  the writer fence of a buffer that a job has written is the finished fence of that job or
  of a later job that has written it; a job that touches a buffer an earlier job has
  written depends on the finished fence of that job or of a writer pushed in between; and
  a job that has a cursor off 0, a hardware fence or the in-flight slot has been run.\<close>

record queued =
  v_in :: "bo_ref list"
  v_out :: "bo_ref list"
  v_deps :: "sched_fence list"
  v_fence :: "sched_fence option"

definition static :: "rocket_job \<Rightarrow> queued" where
  "static job =
     \<lparr>v_in = in_bos job, v_out = out_bos job, v_deps = dependencies job,
      v_fence = inference_done_fence job\<rparr>"

definition confined :: "job_ref set \<Rightarrow> npu_state \<Rightarrow> npu_state \<Rightarrow> bool" where
  "confined A s t =
     (length (jobs t) = length (jobs s) \<and>
      (\<forall>k<length (jobs s). static (jobs t ! k) = static (jobs s ! k) \<and>
                            (k \<notin> A \<longrightarrow> jobs t ! k = jobs s ! k)) \<and>
      (\<forall>k. in_flight_job (core t) = Some k \<longrightarrow> k \<in> A))"

definition fence_inv :: "queued list \<Rightarrow> nat \<Rightarrow> sched_fence set \<Rightarrow> bool" where
  "fence_inv qs n F =
     ((\<forall>j<length qs. \<exists>f. v_fence (qs ! j) = Some f \<and> f < n) \<and>
      (\<forall>j<length qs. \<forall>i<j. v_fence (qs ! i) \<noteq> v_fence (qs ! j)) \<and>
      (\<forall>f\<in>F. f < n))"

definition ran_inv :: "queued list \<Rightarrow> sched_fence set \<Rightarrow> job_ref set \<Rightarrow> bool" where
  "ran_inv qs F R =
     ((\<forall>j\<in>R. j < length qs \<and> set (v_deps (qs ! j)) \<subseteq> F) \<and>
      (\<forall>j<length qs. \<forall>f\<in>F. v_fence (qs ! j) = Some f \<longrightarrow> j \<in> R))"

definition writer_inv :: "queued list \<Rightarrow> (bo_ref \<Rightarrow> dma_resv) \<Rightarrow> bool" where
  "writer_inv qs rs =
     (\<forall>i<length qs. \<forall>b\<in>set (v_out (qs ! i)).
        \<exists>k<length qs. i \<le> k \<and> b \<in> set (v_out (qs ! k)) \<and> writer (rs b) = v_fence (qs ! k))"

definition deps_inv :: "queued list \<Rightarrow> bool" where
  "deps_inv qs =
     (\<forall>j<length qs. \<forall>i<j. \<forall>b\<in>set (v_out (qs ! i)).
        b \<in> set (v_in (qs ! j)) \<union> set (v_out (qs ! j)) \<longrightarrow>
        (\<exists>k<j. i \<le> k \<and> b \<in> set (v_out (qs ! k)) \<and>
               (\<exists>f. v_fence (qs ! k) = Some f \<and> f \<in> set (v_deps (qs ! j)))))"

definition queue_inv ::
  "queued list \<Rightarrow> (bo_ref \<Rightarrow> dma_resv) \<Rightarrow> nat \<Rightarrow> sched_fence set \<Rightarrow> job_ref set \<Rightarrow> bool" where
  "queue_inv qs rs n F R =
     (fence_inv qs n F \<and> ran_inv qs F R \<and> writer_inv qs rs \<and> deps_inv qs)"

definition touched_inv :: "system \<Rightarrow> bool" where
  "touched_inv s =
     ((\<forall>j<length (jobs (npu s)).
         next_task_idx (jobs (npu s) ! j) \<noteq> 0 \<or> done_fence (jobs (npu s) ! j) \<noteq> None
           \<longrightarrow> j \<in> set (sched_ran s)) \<and>
      (\<forall>j. in_flight_job (core (npu s)) = Some j \<longrightarrow> j \<in> set (sched_ran s)))"

definition sys_inv :: "system \<Rightarrow> bool" where
  "sys_inv s =
     (queue_inv (map static (jobs (npu s))) (sys_resv s) (sys_fence_seq s)
        (set (finished s)) (set (sched_ran s)) \<and>
      touched_inv s)"

section \<open>Example inputs\<close>

text \<open>Two tasks, a job as the ioctl creates it from a list of tasks, a core at rest with
  given jobs, and outcomes of the environment: every call succeeds; no handler is running
  when a timeout is handled; a raw status with a completion bit.\<close>

definition task_a :: rocket_task where
  "task_a = \<lparr>regcmd = 0x1000, regcmd_count = 8\<rparr>"

definition task_b :: rocket_task where
  "task_b = \<lparr>regcmd = 0x2000, regcmd_count = 4\<rparr>"

definition new_job :: "rocket_task list \<Rightarrow> rocket_job" where
  "new_job ts = zero_job\<lparr>tasks := ts, task_count := of_nat (length ts)\<rparr>"

definition idle_state :: "rocket_job list \<Rightarrow> npu_state" where
  "idle_state js =
     \<lparr>core = \<lparr>index = 0, reset_pending = False, in_flight_job = None, emit_seqno = 0\<rparr>,
      jobs = js, fences = [], effects = [], sched_pending = [], sched_resubmitted = []\<rparr>"

definition ok_env :: run_env where
  "ok_env = \<lparr>fence_alloc_ok = True, pm_runtime_get_sync_ret = 0, iommu_attach_group_ret = 0\<rparr>"

definition quiet :: timeout_env where
  "quiet = \<lparr>handler_running_at_recheck = False, handler_running_at_reset = False\<rparr>"

definition completion :: raw_status where
  "completion = \<lparr>dpu_0 = True, dpu_1 = False, dma_read_error = False\<rparr>"

text \<open>A core on which a reset is pending while the first of two tasks of job 0 is in
  flight: the state in which \<open>rocket_job_timedout\<close> calls \<open>rocket_reset\<close>.\<close>

definition stalled_state :: npu_state where
  "stalled_state =
     \<lparr>core = \<lparr>index = 0, reset_pending = True, in_flight_job = Some 0, emit_seqno = 1\<rparr>,
      jobs = [(new_job [task_a, task_b])\<lparr>next_task_idx := 1, done_fence := Some 0\<rparr>],
      fences = [\<lparr>seqno = 1, signaled = False\<rparr>],
      effects = [], sched_pending = [0], sched_resubmitted = []\<rparr>"

text \<open>The same core with no reset pending, and with the second task in flight as well.\<close>

definition running_state :: npu_state where
  "running_state = set_reset_pending False stalled_state"

definition finishing_state :: npu_state where
  "finishing_state = job_upd 0 (\<lambda>jb. jb\<lparr>next_task_idx := 2\<rparr>) running_state"

text \<open>A timeout during which a threaded handler is running when the reset synchronises
  with the interrupt line.\<close>

definition late_irq :: timeout_env where
  "late_irq = \<lparr>handler_running_at_recheck = False, handler_running_at_reset = True\<rparr>"

text \<open>The state a list of events leads to, for the examples (where there is one).\<close>

definition after :: "npu_state \<Rightarrow> event list \<Rightarrow> npu_state" where
  "after s es = the (exec s es)"

definition late_irq_at_recheck :: timeout_env where
  "late_irq_at_recheck = \<lparr>handler_running_at_recheck = True, handler_running_at_reset = False\<rparr>"

text \<open>For the submission side: an environment in which every call succeeds, a device
  with no fence on any buffer, an empty queue and 10 as the next fence, a file with two
  buffer handles, and a
  user memory holding one well-formed task, one task with a zero command count, one task
  with a non-zero reserved field, the two handle arrays and an array of one job whose task
  list is empty.\<close>

definition no_failure :: submit_env where
  "no_failure =
     \<lparr>kzalloc_job_ok = True, drm_sched_job_init_ret = None, kvmalloc_tasks_ok = True,
      kvmalloc_job_tasks_ok = True, kvmalloc_bos_ok = True, lock_reservations_ret = None,
      reserve_fences_ret = (\<lambda>b. None), add_dependencies_ret = (\<lambda>b. None)\<rparr>"

definition empty_device :: rocket_device where
  "empty_device =
     \<lparr>resv = (\<lambda>b. \<lparr>writer = None, readers = []\<rparr>), entity_queue = [], fence_seq = 10\<rparr>"

definition two_handles :: drm_file where
  "two_handles =
     \<lparr>handles = (\<lambda>h. if h = 1 then Some 0 else if h = 2 then Some 1 else None),
      file_domain = 7\<rparr>"

definition good_job :: drm_rocket_job where
  "good_job =
     \<lparr>job_tasks = 0x100, job_in_bo_handles = 0x300, job_out_bo_handles = 0x400,
      job_task_count = 1, job_in_bo_handle_count = 1, job_out_bo_handle_count = 1,
      job_reserved = 0\<rparr>"

definition empty_job :: drm_rocket_job where
  "empty_job = good_job\<lparr>job_task_count := 0\<rparr>"

definition zero_count_job :: drm_rocket_job where
  "zero_count_job = good_job\<lparr>job_tasks := 0x200\<rparr>"

definition reserved_task_job :: drm_rocket_job where
  "reserved_task_job = good_job\<lparr>job_tasks := 0x280\<rparr>"

definition example_mem :: user_mem where
  "example_mem =
     \<lparr>mem_tasks = (\<lambda>a.
        if a = 0x100 then Some [\<lparr>task_regcmd = 0x1000, task_regcmd_count = 8, task_reserved = 0\<rparr>]
        else if a = 0x200
          then Some [\<lparr>task_regcmd = 0x1000, task_regcmd_count = 0, task_reserved = 0\<rparr>]
        else if a = 0x280
          then Some [\<lparr>task_regcmd = 0x1000, task_regcmd_count = 8, task_reserved = 1\<rparr>]
        else None),
      mem_handles = (\<lambda>a. if a = 0x300 then Some [1] else if a = 0x400 then Some [2] else None),
      mem_jobs = (\<lambda>a. if a = 0x500 then Some [empty_job]
                      else if a = 0x600 then Some [zero_count_job] else None)\<rparr>"

definition submit_empty_job :: drm_rocket_submit where
  "submit_empty_job = \<lparr>submit_jobs = 0x500, submit_job_count = 1, submit_reserved = 0\<rparr>"

definition submit_zero_count_job :: drm_rocket_submit where
  "submit_zero_count_job = \<lparr>submit_jobs = 0x600, submit_job_count = 1, submit_reserved = 0\<rparr>"

text \<open>A job that reads buffer 0 and writes buffer 1.\<close>

definition job_r0_w1 :: rocket_job where
  "job_r0_w1 = (new_job [task_a])\<lparr>in_bos := [0], out_bos := [1]\<rparr>"

text \<open>For scheduler and engine together: buffer 0 carries the writer fence 2 and the
  reader fences 3 and 4 of other owners; the whole at rest with 10 as the next fence; a
  job descriptor that reads buffer 1 and writes buffer 0 (\<open>good_job\<close> reads buffer 0 and
  writes buffer 1). \<open>good_job\<close> is submitted twice and then the third job; the other
  owners signal their fences and the scheduler considers job 2 (\<open>blocked_run\<close>); then jobs
  0 and 1 are run to their end in turn, and the scheduler considers job 2 again
  (\<open>hazard_run\<close>).\<close>

definition shared_buffers :: "bo_ref \<Rightarrow> dma_resv" where
  "shared_buffers b =
     (if b = 0 then \<lparr>writer = Some 2, readers = [3, 4]\<rparr> else \<lparr>writer = None, readers = []\<rparr>)"

definition start_system :: system where
  "start_system =
     \<lparr>npu = idle_state [], sys_resv = shared_buffers, sys_fence_seq = 10, finished = [],
      sched_ran = []\<rparr>"

definition job_r1_w0 :: drm_rocket_job where
  "job_r1_w0 = good_job\<lparr>job_in_bo_handles := 0x400, job_out_bo_handles := 0x300\<rparr>"

definition submit_three :: "sys_event list" where
  "submit_three =
     [Submit_job no_failure example_mem two_handles good_job,
      Submit_job no_failure example_mem two_handles good_job,
      Submit_job no_failure example_mem two_handles job_r1_w0]"

definition others_signal :: "sys_event list" where
  "others_signal = [Signal_elsewhere 2, Signal_elsewhere 3, Signal_elsewhere 4]"

definition run_to_end :: "job_ref \<Rightarrow> sys_event list" where
  "run_to_end j = [Engine (Run_job j ok_env), Engine (Irq completion), Job_done j]"

definition blocked_run :: "sys_event list" where
  "blocked_run = submit_three @ others_signal @ [Engine (Run_job 2 ok_env)]"

definition hazard_run :: "sys_event list" where
  "hazard_run = blocked_run @ run_to_end 0 @ run_to_end 1 @ [Engine (Run_job 2 ok_env)]"

definition sys_after :: "system \<Rightarrow> sys_event list \<Rightarrow> system" where
  "sys_after s es = the (sys_exec s es)"

section \<open>Properties of the execution side\<close>

subsection \<open>Projections of the state updates\<close>

lemma emit_simps [simp]:
  "core (emit es s) = core s"
  "jobs (emit es s) = jobs s"
  "fences (emit es s) = fences s"
  "effects (emit es s) = effects s @ es"
  "sched_pending (emit es s) = sched_pending s"
  "sched_resubmitted (emit es s) = sched_resubmitted s"
  by (simp_all add: emit_def)

lemma job_upd_simps [simp]:
  "core (job_upd j g s) = core s"
  "jobs (job_upd j g s) = (jobs s)[j := g (jobs s ! j)]"
  "fences (job_upd j g s) = fences s"
  "effects (job_upd j g s) = effects s"
  "sched_pending (job_upd j g s) = sched_pending s"
  "sched_resubmitted (job_upd j g s) = sched_resubmitted s"
  by (simp_all add: job_upd_def)

lemma set_in_flight_simps [simp]:
  "in_flight_job (core (set_in_flight v s)) = v"
  "reset_pending (core (set_in_flight v s)) = reset_pending (core s)"
  "index (core (set_in_flight v s)) = index (core s)"
  "emit_seqno (core (set_in_flight v s)) = emit_seqno (core s)"
  "jobs (set_in_flight v s) = jobs s"
  "fences (set_in_flight v s) = fences s"
  "effects (set_in_flight v s) = effects s"
  "sched_pending (set_in_flight v s) = sched_pending s"
  "sched_resubmitted (set_in_flight v s) = sched_resubmitted s"
  by (simp_all add: set_in_flight_def)

lemma set_reset_pending_simps [simp]:
  "in_flight_job (core (set_reset_pending v s)) = in_flight_job (core s)"
  "reset_pending (core (set_reset_pending v s)) = v"
  "index (core (set_reset_pending v s)) = index (core s)"
  "emit_seqno (core (set_reset_pending v s)) = emit_seqno (core s)"
  "jobs (set_reset_pending v s) = jobs s"
  "fences (set_reset_pending v s) = fences s"
  "effects (set_reset_pending v s) = effects s"
  "sched_pending (set_reset_pending v s) = sched_pending s"
  "sched_resubmitted (set_reset_pending v s) = sched_resubmitted s"
  by (simp_all add: set_reset_pending_def)

lemma job_at_simps [simp]:
  "job_at (emit es s) j = job_at s j"
  "job_at (set_in_flight v s) j = job_at s j"
  "job_at (set_reset_pending b s) j = job_at s j"
  by (simp_all add: job_at_def)

lemma fence_at_simps [simp]:
  "fence_at (emit es s) f = fence_at s f"
  "fence_at (set_in_flight v s) f = fence_at s f"
  "fence_at (set_reset_pending b s) f = fence_at s f"
  "fence_at (job_upd j g s) f = fence_at s f"
  by (simp_all add: fence_at_def)

lemma resets_frame [simp]:
  "resets (emit es s) = resets s + count_list es Pm_runtime_force_suspend"
  "resets (job_upd j g s) = resets s"
  "resets (set_in_flight v s) = resets s"
  "resets (set_reset_pending b s) = resets s"
  by (simp_all add: resets_def)

lemma dispatches_frame [simp]:
  "dispatches (emit es s) = dispatches s + count_list es (Writel PC_OPERATION_ENABLE (Val 0x1))"
  "dispatches (job_upd j g s) = dispatches s"
  "dispatches (set_in_flight v s) = dispatches s"
  "dispatches (set_reset_pending b s) = dispatches s"
  by (simp_all add: dispatches_def)

lemma counts_fences_update [simp]:
  "dispatches (s\<lparr>fences := x\<rparr>) = dispatches s"
  "resets (s\<lparr>fences := x\<rparr>) = resets s"
  "signals (s\<lparr>fences := x\<rparr>) f = signals s f"
  "dispatches (s\<lparr>core := c\<rparr>) = dispatches s"
  "resets (s\<lparr>core := c\<rparr>) = resets s"
  "signals (s\<lparr>core := c\<rparr>) f = signals s f"
  "dispatches (s\<lparr>sched_resubmitted := y\<rparr>) = dispatches s"
  "resets (s\<lparr>sched_resubmitted := y\<rparr>) = resets s"
  "dispatches (s\<lparr>sched_pending := z\<rparr>) = dispatches s"
  "resets (s\<lparr>sched_pending := z\<rparr>) = resets s"
  by (simp_all add: dispatches_def resets_def signals_def)

lemma hw_submit_writes_counts [simp]:
  "count_list (hw_submit_writes ix task) (Writel PC_OPERATION_ENABLE (Val 0x1)) = 1"
  "count_list (hw_submit_writes ix task) Pm_runtime_force_suspend = 0"
  "count_list (hw_submit_writes ix task) (Fence_signal f) = 0"
  by (simp_all add: hw_submit_writes_def)

lemma irq_ack_counts [simp]:
  "count_list irq_ack (Writel PC_OPERATION_ENABLE (Val 0x1)) = 0"
  "count_list irq_ack Pm_runtime_force_suspend = 0"
  "count_list irq_ack (Fence_signal f) = 0"
  by (simp_all add: irq_ack_def)

lemma map_update_same:
  "f (g (xs ! j)) = f (xs ! j) \<Longrightarrow> map f (xs[j := g (xs ! j)]) = map f xs"
  by (cases "j < length xs") (simp_all add: map_update list_update_same_conv list_update_beyond)

lemma issued_frame [simp]:
  "issued (emit es s) = issued s"
  "issued (set_in_flight v s) = issued s"
  "issued (set_reset_pending b s) = issued s"
  "issued (s\<lparr>fences := x\<rparr>) = issued s"
  "issued (s\<lparr>core := c\<rparr>) = issued s"
  "issued (s\<lparr>sched_resubmitted := y\<rparr>) = issued s"
  "issued (s\<lparr>sched_pending := z\<rparr>) = issued s"
  by (simp_all add: issued_def)

lemma issued_job_upd_same:
  "next_task_idx (g (jobs s ! j)) = next_task_idx (jobs s ! j) \<Longrightarrow>
   issued (job_upd j g s) = issued s"
  using map_update_same[of "\<lambda>jb. unat (next_task_idx jb)" g "jobs s" j]
  by (simp add: issued_def)

lemma sum_list_map_update:
  "j < length xs \<Longrightarrow>
   sum_list (map f (xs[j := y])) + f (xs ! j) = sum_list (map f xs) + (f y :: nat)"
proof (induction xs arbitrary: j)
  case Nil
  then show ?case by simp
next
  case (Cons x xs)
  then show ?case by (cases j) (simp_all add: add.assoc add.left_commute)
qed

lemma word_unat_Suc: "(x::'a::len word) < y \<Longrightarrow> unat (x + 1) = unat x + 1"
  by unat_arith

lemma issued_advance:
  assumes "j < length (jobs s)" "next_task_idx (jobs s ! j) < task_count (jobs s ! j)"
  shows "issued (job_upd j (\<lambda>jb. jb\<lparr>next_task_idx := next_task_idx jb + 1\<rparr>) s) = issued s + 1"
  using sum_list_map_update[OF assms(1), of "\<lambda>jb. unat (next_task_idx jb)"
          "(jobs s ! j)\<lparr>next_task_idx := next_task_idx (jobs s ! j) + 1\<rparr>"]
    word_unat_Suc[OF assms(2)]
  by (simp add: issued_def)

lemma state_wf_alt:
  "state_wf s \<longleftrightarrow>
     (\<forall>j<length (jobs s). job_wf (fences s) (jobs s ! j)) \<and>
     (\<forall>i<length (jobs s). \<forall>j<length (jobs s).
        i \<noteq> j \<longrightarrow> done_fence (jobs s ! i) \<noteq> None \<longrightarrow>
        done_fence (jobs s ! i) \<noteq> done_fence (jobs s ! j)) \<and>
     in_flight_wf s \<and>
     (\<forall>f<length (fences s). signals s f = (if signaled (fences s ! f) then 1 else 0)) \<and>
     (\<forall>e\<in>set (effects s). effect_wf (length (fences s)) e)"
proof -
  have a: "list_all (job_wf (fences s)) (jobs s) \<longleftrightarrow>
           (\<forall>j<length (jobs s). job_wf (fences s) (jobs s ! j))"
    by (simp add: list_all_length)
  have b: "jobs_distinct (jobs s) \<longleftrightarrow>
           (\<forall>i<length (jobs s). \<forall>j<length (jobs s).
              i \<noteq> j \<longrightarrow> done_fence (jobs s ! i) \<noteq> None \<longrightarrow>
              done_fence (jobs s ! i) \<noteq> done_fence (jobs s ! j))"
    by (simp add: jobs_distinct_def list_all_iff Ball_def)
  have c: "signals_wf s \<longleftrightarrow>
           (\<forall>f<length (fences s). signals s f = (if signaled (fences s ! f) then 1 else 0)) \<and>
           (\<forall>e\<in>set (effects s). effect_wf (length (fences s)) e)"
    by (simp add: signals_wf_def list_all_iff Ball_def)
  show ?thesis unfolding state_wf_def a b c by blast
qed

lemma effect_wf_simps [simp]:
  "effect_wf n (Fence_signal f) \<longleftrightarrow> f < n"
  "effect_wf n (Writel r v)"
  "effect_wf n (Readl r)"
  "effect_wf n (Iommu_attach_group d)"
  "effect_wf n Iommu_detach_group"
  "effect_wf n Pm_runtime_get_sync"
  "effect_wf n Pm_runtime_put_autosuspend"
  "effect_wf n Pm_runtime_put_noidle"
  "effect_wf n Pm_runtime_mark_last_busy"
  "effect_wf n Pm_runtime_force_suspend"
  "effect_wf n Pm_runtime_force_resume"
  "effect_wf n Synchronize_irq"
  "effect_wf n (Drm_sched_stop b)"
  "effect_wf n (Drm_sched_increase_karma k)"
  "effect_wf n Drm_sched_resubmit_jobs"
  "effect_wf n Drm_sched_start"
  "effect_wf n (Dev_dbg_submitted a ix)"
  "effect_wf n Dev_warn_irq_latency"
  "effect_wf n Dev_err_sched_timeout"
  "effect_wf n Warn_on_dma_read_error"
  by (simp_all add: effect_wf_def)

lemma effect_wf_mono: "effect_wf n e \<Longrightarrow> n \<le> m \<Longrightarrow> effect_wf m e"
  by (cases e) simp_all

lemma effect_wf_not_signal: "\<forall>f. e \<noteq> Fence_signal f \<Longrightarrow> effect_wf n e"
  by (cases e) simp_all

lemma signals_emit [simp]: "signals (emit es s) f = signals s f + count_list es (Fence_signal f)"
  by (simp add: signals_def)

lemma signals_frame [simp]:
  "signals (job_upd j g s) f = signals s f"
  "signals (set_in_flight v s) f = signals s f"
  "signals (set_reset_pending b s) f = signals s f"
  by (simp_all add: signals_def)

lemma signals_fresh:
  assumes "\<forall>e\<in>set (effects s). effect_wf n e" and "n \<le> f"
  shows "signals s f = 0"
proof -
  have "Fence_signal f \<notin> set (effects s)"
  proof
    assume "Fence_signal f \<in> set (effects s)"
    with assms(1) have "effect_wf n (Fence_signal f)" by blast
    with assms(2) show False by simp
  qed
  then show ?thesis by (simp add: signals_def)
qed

lemma in_flight_wf_frame [simp]:
  "in_flight_wf (emit es s) = in_flight_wf s"
  "in_flight_wf (set_reset_pending b s) = in_flight_wf s"
  "in_flight_wf (set_in_flight None s)"
  by (simp_all add: in_flight_wf_def split: option.splits)

lemma state_wf_emit:
  assumes wf: "state_wf s" and es: "\<forall>f. Fence_signal f \<notin> set es"
  shows "state_wf (emit es s)"
proof -
  have c: "count_list es (Fence_signal f) = 0" for f
    using es by simp
  have e: "effect_wf n e" if "e \<in> set es" for e n
    using that es by (intro effect_wf_not_signal) auto
  show ?thesis
    using wf unfolding state_wf_alt by (auto simp: c e)
qed

lemma state_wf_set_reset_pending [simp]:
  "state_wf (set_reset_pending b s) = state_wf s"
  unfolding state_wf_alt by simp

lemma state_wf_clear_in_flight:
  "state_wf s \<Longrightarrow> state_wf (set_in_flight None s)"
  unfolding state_wf_alt by simp

lemma state_wf_set_in_flight:
  assumes "state_wf s" "j < length (jobs s)" "done_fence (jobs s ! j) = Some f"
    "\<not> signaled (fences s ! f)"
  shows "state_wf (set_in_flight (Some j) s)"
  using assms unfolding state_wf_alt by (simp add: in_flight_wf_def)


lemma state_wf_advance:
  assumes wf: "state_wf s" and j: "j < length (jobs s)"
    and lt: "next_task_idx (jobs s ! j) < task_count (jobs s ! j)"
    and unsig: "\<And>f. done_fence (jobs s ! j) = Some f \<Longrightarrow> \<not> signaled (fences s ! f)"
  shows "state_wf (job_upd j (\<lambda>jb. jb\<lparr>next_task_idx := next_task_idx jb + 1\<rparr>) s)"
proof -
  let ?s' = "job_upd j (\<lambda>jb. jb\<lparr>next_task_idx := next_task_idx jb + 1\<rparr>) s"
  have df: "done_fence (jobs ?s' ! k) = done_fence (jobs s ! k)" if "k < length (jobs s)" for k
    using that by (cases "k = j") simp_all
  have jw: "job_wf (fences s) (jobs ?s' ! k)" if k: "k < length (jobs s)" for k
  proof (cases "k = j")
    case True
    have "job_wf (fences s) (jobs s ! j)" using wf j unfolding state_wf_alt by blast
    then show ?thesis
      using True j lt unsig by (auto simp: job_wf_def inc_le split: option.splits)
  next
    case False
    then show ?thesis using wf k unfolding state_wf_alt by (simp add: nth_list_update)
  qed
  have "in_flight_wf s" using wf unfolding state_wf_alt by blast
  then have fl: "in_flight_wf ?s'"
    unfolding in_flight_wf_def
    by (cases "in_flight_job (core s)") (use df in \<open>auto split: option.splits\<close>)
  show ?thesis
    unfolding state_wf_alt
  proof (intro conjI allI impI)
    fix k assume "k < length (jobs ?s')"
    then show "job_wf (fences ?s') (jobs ?s' ! k)" using jw by simp
  next
    fix i k assume "i < length (jobs ?s')" "k < length (jobs ?s')" "i \<noteq> k"
      "done_fence (jobs ?s' ! i) \<noteq> None"
    then show "done_fence (jobs ?s' ! i) \<noteq> done_fence (jobs ?s' ! k)"
      using wf df unfolding state_wf_alt by simp
  next
    show "in_flight_wf ?s'" by (rule fl)
  next
    fix f assume "f < length (fences ?s')"
    then show "signals ?s' f = (if signaled (fences ?s' ! f) then 1 else 0)"
      using wf unfolding state_wf_alt by simp
  next
    show "\<forall>e\<in>set (effects ?s'). effect_wf (length (fences ?s')) e"
      using wf unfolding state_wf_alt by simp
  qed
qed

lemma rocket_fence_create_ok:
  "rocket_fence_create True s =
     (Some (length (fences s)),
      s\<lparr>core := (core s)\<lparr>emit_seqno := emit_seqno (core s) + 1\<rparr>,
        fences := fences s @ [\<lparr>seqno = emit_seqno (core s) + 1, signaled = False\<rparr>]\<rparr>)"
  by (simp add: rocket_fence_create_def Let_def)

lemma rocket_fence_create_fail: "rocket_fence_create False s = (None, s)"
  by (simp add: rocket_fence_create_def)

lemma state_wf_new_fence:
  assumes wf: "state_wf s" and j: "j < length (jobs s)"
    and s1: "s1 = s\<lparr>core := (core s)\<lparr>emit_seqno := sq\<rparr>,
                    fences := fences s @ [\<lparr>seqno = sq, signaled = False\<rparr>]\<rparr>"
  shows "state_wf (job_upd j (\<lambda>jb. jb\<lparr>done_fence := Some (length (fences s))\<rparr>) s1)"
proof -
  let ?n = "length (fences s)"
  let ?fs = "fences s @ [\<lparr>seqno = sq, signaled = False\<rparr>]"
  let ?s' = "job_upd j (\<lambda>jb. jb\<lparr>done_fence := Some ?n\<rparr>) s1"
  have fs: "fences s1 = ?fs" and js: "jobs s1 = jobs s"
    and es: "effects s1 = effects s" and fl: "in_flight_job (core s1) = in_flight_job (core s)"
    using s1 by simp_all
  have old: "job_wf (fences s) (jobs s ! k)" if "k < length (jobs s)" for k
    using wf that unfolding state_wf_alt by blast
  have bound: "f < ?n" if "k < length (jobs s)" "done_fence (jobs s ! k) = Some f" for k f
    using old[OF that(1)] that(2) by (simp add: job_wf_def)
  note bound2 = bound[OF _ sym]
  have jw: "job_wf ?fs (jobs ?s' ! k)" if k: "k < length (jobs s)" for k
  proof (cases "k = j")
    case True
    then show ?thesis using old[OF j] j by (simp add: js job_wf_def)
  next
    case False
    then show ?thesis
      using old[OF k] k by (auto simp: js job_wf_def nth_append split: option.splits)
  qed
  have dist: "done_fence (jobs ?s' ! i) \<noteq> done_fence (jobs ?s' ! k)"
    if "i < length (jobs s)" "k < length (jobs s)" "i \<noteq> k" "done_fence (jobs ?s' ! i) \<noteq> None"
    for i k
  proof -
    have d: "done_fence (jobs s ! i) \<noteq> done_fence (jobs s ! k)"
      if "done_fence (jobs s ! i) \<noteq> None"
      using wf that \<open>i < length (jobs s)\<close> \<open>k < length (jobs s)\<close> \<open>i \<noteq> k\<close>
      unfolding state_wf_alt by blast
    show ?thesis
    proof (cases "i = j")
      case True
      with that have "k \<noteq> j" by simp
      then show ?thesis
        using True that bound[of k] bound2[of k] by (auto simp: js)
    next
      case False
      show ?thesis
      proof (cases "k = j")
        case True
        then show ?thesis using False that bound[of i] bound2[of i] by (auto simp: js)
      next
        case kj: False
        then show ?thesis using False that d by (simp add: js)
      qed
    qed
  qed
  have ifw: "in_flight_wf ?s'"
  proof (cases "in_flight_job (core s)")
    case None
    then show ?thesis by (simp add: in_flight_wf_def fl)
  next
    case (Some k)
    have kk: "k < length (jobs s)" and
      kf: "case done_fence (jobs s ! k) of None \<Rightarrow> False | Some f \<Rightarrow> \<not> signaled (fences s ! f)"
      using wf Some unfolding state_wf_alt in_flight_wf_def by simp_all
    show ?thesis
    proof (cases "k = j")
      case True
      then show ?thesis using Some j by (simp add: in_flight_wf_def fl js fs)
    next
      case False
      then show ?thesis
        using Some kk kf bound[of k]
        by (auto simp: in_flight_wf_def fl js fs nth_append split: option.splits)
    qed
  qed
  have ew: "\<forall>e\<in>set (effects s). effect_wf ?n e"
    using wf unfolding state_wf_alt by blast
  have sg: "signals ?s' f = (if signaled (?fs ! f) then 1 else 0)" if "f < length ?fs" for f
  proof (cases "f < ?n")
    case True
    then show ?thesis
      using wf unfolding state_wf_alt by (simp add: signals_def es nth_append)
  next
    case False
    with that have "f = ?n" by simp
    moreover have "signals s ?n = 0" using ew by (rule signals_fresh) simp
    ultimately show ?thesis by (simp add: signals_def es)
  qed
  show ?thesis
    unfolding state_wf_alt
  proof (intro conjI allI impI)
    fix k assume "k < length (jobs ?s')"
    then show "job_wf (fences ?s') (jobs ?s' ! k)" using jw by (simp add: fs js)
  next
    fix i k assume "i < length (jobs ?s')" "k < length (jobs ?s')" "i \<noteq> k"
      "done_fence (jobs ?s' ! i) \<noteq> None"
    then show "done_fence (jobs ?s' ! i) \<noteq> done_fence (jobs ?s' ! k)"
      using dist by (simp add: js)
  next
    show "in_flight_wf ?s'" by (rule ifw)
  next
    fix f assume "f < length (fences ?s')"
    then show "signals ?s' f = (if signaled (fences ?s' ! f) then 1 else 0)"
      using sg by (simp add: fs)
  next
    show "\<forall>e\<in>set (effects ?s'). effect_wf (length (fences ?s')) e"
      using ew by (auto simp: es fs intro: effect_wf_mono)
  qed
qed


lemma evolves_alt:
  "evolves s t \<longleftrightarrow>
     length (jobs t) = length (jobs s) \<and>
     (\<forall>j<length (jobs s). job_progress (jobs s ! j) (jobs t ! j)) \<and>
     length (fences s) \<le> length (fences t) \<and>
     (\<forall>f<length (fences s). fence_kept (fences s ! f) (fences t ! f)) \<and>
     dispatches t + issued s = dispatches s + issued t"
  by (auto simp: evolves_def list_all2_conv_all_nth)

lemma evolves_refl [simp]: "evolves s s"
  by (simp add: evolves_alt job_progress_def fence_kept_def)

lemma evolves_trans:
  assumes st: "evolves s t" and tu: "evolves t u"
  shows "evolves s u"
proof -
  have "dispatches u + issued s = dispatches s + issued u"
    using st tu unfolding evolves_alt by linarith
  moreover have "length (jobs u) = length (jobs s)"
    and "length (fences s) \<le> length (fences u)"
    using st tu unfolding evolves_alt by simp_all
  moreover have "job_progress (jobs s ! j) (jobs u ! j)" if "j < length (jobs s)" for j
    using st tu that unfolding evolves_alt job_progress_def by (auto intro: order_trans)
  moreover have "fence_kept (fences s ! f) (fences u ! f)" if "f < length (fences s)" for f
    using st tu that unfolding evolves_alt fence_kept_def by auto
  ultimately show ?thesis unfolding evolves_alt by blast
qed

lemma evolves_frame [simp]:
  "count_list es (Writel PC_OPERATION_ENABLE (Val 0x1)) = 0 \<Longrightarrow>
     evolves s (emit es t) = evolves s t"
  "evolves s (set_in_flight v t) = evolves s t"
  "evolves s (set_reset_pending b t) = evolves s t"
  by (simp_all add: evolves_def)

lemma evolves_frame_left [simp]:
  "count_list es (Writel PC_OPERATION_ENABLE (Val 0x1)) = 0 \<Longrightarrow>
     evolves (emit es s) t = evolves s t"
  "evolves (set_in_flight v s) t = evolves s t"
  "evolves (set_reset_pending b s) t = evolves s t"
  by (simp_all add: evolves_def)

lemma word_less_le_Suc: "(x::'a::len word) < y \<Longrightarrow> x \<le> x + 1"
  by unat_arith

lemma evolves_dispatch:
  assumes "j < length (jobs s)" "next_task_idx (jobs s ! j) < task_count (jobs s ! j)"
  shows "evolves s (emit (hw_submit_writes ix task)
                     (job_upd j (\<lambda>jb. jb\<lparr>next_task_idx := next_task_idx jb + 1\<rparr>) s))"
  using assms issued_advance[OF assms] unfolding evolves_alt job_progress_def fence_kept_def
  by (auto simp: nth_list_update word_less_le_Suc)

lemma dma_fence_signal_locked_wf:
  assumes wf: "state_wf s" and j: "j < length (jobs s)"
    and df: "done_fence (jobs s ! j) = Some f"
    and unsig: "\<not> signaled (fences s ! f)"
    and fin: "next_task_idx (jobs s ! j) = task_count (jobs s ! j)"
    and nofl: "in_flight_job (core s) = None"
  shows "\<exists>t. dma_fence_signal_locked f s = Some t \<and> state_wf t \<and> evolves s t \<and>
             core t = core s \<and> jobs t = jobs s \<and> signaled (fences t ! f)"
proof -
  let ?fs = "(fences s)[f := (fences s ! f)\<lparr>signaled := True\<rparr>]"
  let ?t = "emit [Fence_signal f] (s\<lparr>fences := ?fs\<rparr>)"
  have old: "job_wf (fences s) (jobs s ! k)" if "k < length (jobs s)" for k
    using wf that unfolding state_wf_alt by blast
  have fl: "f < length (fences s)" using old[OF j] df by (simp add: job_wf_def)
  have run: "dma_fence_signal_locked f s = Some ?t"
    using fl unsig by (simp add: dma_fence_signal_locked_def fence_at_def)
  have dist: "done_fence (jobs s ! k) \<noteq> Some f" if "k < length (jobs s)" "k \<noteq> j" for k
    using wf that j df unfolding state_wf_alt by (metis option.distinct(1))
  have jw: "job_wf ?fs (jobs s ! k)" if k: "k < length (jobs s)" for k
  proof (cases "k = j")
    case True
    then show ?thesis using old[OF j] df fin by (simp add: job_wf_def)
  next
    case False
    then show ?thesis
      using old[OF k] dist[OF k False]
      by (auto simp: job_wf_def nth_list_update split: option.splits)
  qed
  have sg: "signals ?t g = (if signaled (?fs ! g) then 1 else 0)" if "g < length (fences s)" for g
  proof -
    have "signals s g = (if signaled (fences s ! g) then 1 else 0)"
      using wf that unfolding state_wf_alt by blast
    then show ?thesis using that unsig by (auto simp: signals_def nth_list_update)
  qed
  have ew: "\<forall>e\<in>set (effects s). effect_wf (length (fences s)) e"
    using wf unfolding state_wf_alt by blast
  have wt: "state_wf ?t"
    unfolding state_wf_alt
  proof (intro conjI allI impI)
    fix k assume "k < length (jobs ?t)"
    then show "job_wf (fences ?t) (jobs ?t ! k)" using jw by simp
  next
    fix i k assume "i < length (jobs ?t)" "k < length (jobs ?t)" "i \<noteq> k"
      "done_fence (jobs ?t ! i) \<noteq> None"
    then show "done_fence (jobs ?t ! i) \<noteq> done_fence (jobs ?t ! k)"
      using wf unfolding state_wf_alt by simp
  next
    show "in_flight_wf ?t" using nofl by (simp add: in_flight_wf_def)
  next
    fix g assume "g < length (fences ?t)"
    then show "signals ?t g = (if signaled (fences ?t ! g) then 1 else 0)"
      using sg by simp
  next
    show "\<forall>e\<in>set (effects ?t). effect_wf (length (fences ?t)) e"
      using ew fl by auto
  qed
  have fk: "fence_kept (fences s ! g) (?fs ! g)" if "g < length (fences s)" for g
    using that by (cases "g = f") (simp_all add: fence_kept_def)
  have ev: "evolves s ?t"
    unfolding evolves_alt using fk by (simp add: job_progress_def)
  show ?thesis using run wt ev fl by (intro exI[of _ ?t]) simp
qed

lemma rocket_job_hw_submit_pending:
  "reset_pending (core s) \<Longrightarrow> rocket_job_hw_submit s j = Some s"
  by (simp add: rocket_job_hw_submit_def)

lemma rocket_job_hw_submit_go:
  assumes "\<not> reset_pending (core s)" "j < length (jobs s)"
    "unat (next_task_idx (jobs s ! j)) < length (tasks (jobs s ! j))"
  shows "rocket_job_hw_submit s j =
           Some (emit (hw_submit_writes (index (core s))
                         (tasks (jobs s ! j) ! unat (next_task_idx (jobs s ! j))))
                   (job_upd j (\<lambda>jb. jb\<lparr>next_task_idx := next_task_idx jb + 1\<rparr>) s))"
  using assms by (simp add: rocket_job_hw_submit_def job_at_def Let_def)

lemma hw_submit_writes_no_signal: "Fence_signal f \<notin> set (hw_submit_writes ix task)"
  by (simp add: hw_submit_writes_def)

lemma rocket_job_hw_submit_wf:
  assumes wf: "state_wf s" and j: "j < length (jobs s)"
    and lt: "next_task_idx (jobs s ! j) < task_count (jobs s ! j)"
    and unsig: "\<And>f. done_fence (jobs s ! j) = Some f \<Longrightarrow> \<not> signaled (fences s ! f)"
  shows "\<exists>t. rocket_job_hw_submit s j = Some t \<and> state_wf t \<and> evolves s t"
proof (cases "reset_pending (core s)")
  case True
  then show ?thesis using wf by (simp add: rocket_job_hw_submit_pending)
next
  case False
  have "job_wf (fences s) (jobs s ! j)" using wf j unfolding state_wf_alt by blast
  then have len: "unat (next_task_idx (jobs s ! j)) < length (tasks (jobs s ! j))"
    using lt by (simp add: job_wf_def word_less_nat_alt)
  show ?thesis
    unfolding rocket_job_hw_submit_go[OF False j len]
    using state_wf_emit[OF state_wf_advance[OF wf j lt unsig]] evolves_dispatch[OF j lt]
    by (simp add: hw_submit_writes_no_signal)
qed


lemma state_wf_sched_frame [simp]:
  "state_wf (s\<lparr>sched_resubmitted := x\<rparr>) = state_wf s"
  "state_wf (s\<lparr>sched_pending := y\<rparr>) = state_wf s"
  by (simp_all add: state_wf_def in_flight_wf_def signals_wf_def signals_def
      split: option.splits)

lemma evolves_sched_frame [simp]:
  "evolves s (t\<lparr>sched_resubmitted := x\<rparr>) = evolves s t"
  "evolves s (t\<lparr>sched_pending := y\<rparr>) = evolves s t"
  by (simp_all add: evolves_def)

lemma evolves_new_fence:
  assumes "j < length (jobs s)"
    and "s1 = s\<lparr>core := c, fences := fences s @ [fe]\<rparr>"
  shows "evolves s (job_upd j (\<lambda>jb. jb\<lparr>done_fence := Some f\<rparr>) s1)"
  using assms unfolding evolves_alt job_progress_def fence_kept_def
  by (auto simp: nth_list_update nth_append issued_job_upd_same)

lemma rocket_job_run_wf:
  assumes wf: "state_wf s" and j: "j < length (jobs s)"
  shows "\<exists>r t. rocket_job_run env s j = Some (r, t) \<and> state_wf t \<and> evolves s t"
proof -
  let ?job = "jobs s ! j"
  have ja: "job_at s j = Some ?job" using j by (simp add: job_at_def)
  have jw: "job_wf (fences s) ?job" using wf j unfolding state_wf_alt by blast
  show ?thesis
  proof (cases "finished_error ?job \<noteq> 0 \<or> next_task_idx ?job = task_count ?job")
    case True
    then show ?thesis using wf by (auto simp: rocket_job_run_def ja)
  next
    case False
    then have fe: "finished_error ?job = 0" and ne: "next_task_idx ?job \<noteq> task_count ?job"
      by simp_all
    have lt: "next_task_idx ?job < task_count ?job"
      using jw ne by (auto simp: job_wf_def)
    show ?thesis
    proof (cases "fence_alloc_ok env")
      case False
      then show ?thesis
        using wf fe ne by (simp add: rocket_job_run_def ja rocket_fence_create_fail)
    next
      case True
      let ?f = "length (fences s)"
      let ?sq = "emit_seqno (core s) + 1"
      let ?s1 = "s\<lparr>core := (core s)\<lparr>emit_seqno := ?sq\<rparr>,
                   fences := fences s @ [\<lparr>seqno = ?sq, signaled = False\<rparr>]\<rparr>"
      let ?s2 = "job_upd j (\<lambda>jb. jb\<lparr>done_fence := Some ?f\<rparr>) ?s1"
      let ?s3 = "emit [Pm_runtime_get_sync] ?s2"
      let ?s4 = "emit [Iommu_attach_group (domain ?job)] ?s3"
      let ?s5 = "set_in_flight (Some j) ?s4"
      have w2: "state_wf ?s2" by (rule state_wf_new_fence[OF wf j refl])
      have e2: "evolves s ?s2" by (rule evolves_new_fence[OF j refl])
      have w3: "state_wf ?s3" using w2 by (rule state_wf_emit) simp
      have w4: "state_wf ?s4" using w3 by (rule state_wf_emit) simp
      have j4: "j < length (jobs ?s4)" using j by simp
      have d4: "done_fence (jobs ?s4 ! j) = Some ?f" using j by simp
      have u4: "\<not> signaled (fences ?s4 ! ?f)" by simp
      have w5: "state_wf ?s5" by (rule state_wf_set_in_flight[OF w4 j4 d4 u4])
      have j5: "j < length (jobs ?s5)" using j by simp
      have l5: "next_task_idx (jobs ?s5 ! j) < task_count (jobs ?s5 ! j)" using j lt by simp
      have u5: "\<not> signaled (fences ?s5 ! g)" if "done_fence (jobs ?s5 ! j) = Some g" for g
        using that j by auto
      obtain t where t: "rocket_job_hw_submit ?s5 j = Some t" "state_wf t" "evolves ?s5 t"
        using rocket_job_hw_submit_wf[OF w5 j5 l5 u5] by blast
      have e5: "evolves s ?s5" using e2 by simp
      have et: "evolves s t" by (rule evolves_trans[OF e5 t(3)])
      have run: "rocket_job_run env s j =
          (if pm_runtime_get_sync_ret env < 0 then Some (Ret_fence ?f, ?s3)
           else if iommu_attach_group_ret env < 0 then Some (Ret_fence ?f, ?s4)
           else Some (Ret_fence ?f, t))"
        using fe ne True t(1)
        by (simp add: rocket_job_run_def ja rocket_fence_create_ok Let_def)
      show ?thesis
        unfolding run using w3 w4 t(2) e2 et by auto
    qed
  qed
qed

lemma rocket_job_handle_done_wf:
  assumes wf: "state_wf s" and fl: "in_flight_job (core s) = Some j"
  shows "\<exists>t. rocket_job_handle_done s j = Some t \<and> state_wf t \<and> evolves s t"
proof -
  let ?job = "jobs s ! j"
  have ifw: "in_flight_wf s" using wf unfolding state_wf_alt by blast
  then have j: "j < length (jobs s)" using fl by (simp add: in_flight_wf_def)
  obtain f where df: "done_fence ?job = Some f" and unsig: "\<not> signaled (fences s ! f)"
    using ifw fl by (auto simp: in_flight_wf_def split: option.splits)
  have ja: "job_at s j = Some ?job" using j by (simp add: job_at_def)
  have jw: "job_wf (fences s) ?job" using wf j unfolding state_wf_alt by blast
  show ?thesis
  proof (cases "next_task_idx ?job < task_count ?job")
    case True
    have u: "\<not> signaled (fences s ! g)" if "done_fence ?job = Some g" for g
      using that df unsig by simp
    show ?thesis
      using rocket_job_hw_submit_wf[OF wf j True u] True
      by (simp add: rocket_job_handle_done_def ja)
  next
    case False
    then have fin: "next_task_idx ?job = task_count ?job"
      using jw by (auto simp: job_wf_def)
    let ?s1 = "emit [Iommu_detach_group] (set_in_flight None s)"
    have w1: "state_wf ?s1"
      using state_wf_clear_in_flight[OF wf] by (rule state_wf_emit) simp
    have p: "j < length (jobs ?s1)" "done_fence (jobs ?s1 ! j) = Some f"
      "\<not> signaled (fences ?s1 ! f)" "next_task_idx (jobs ?s1 ! j) = task_count (jobs ?s1 ! j)"
      "in_flight_job (core ?s1) = None"
      using j df unsig fin by simp_all
    obtain t where t: "dma_fence_signal_locked f ?s1 = Some t" "state_wf t" "evolves ?s1 t"
      using dma_fence_signal_locked_wf[OF w1 p] by blast
    have "rocket_job_handle_done s j = Some (emit [Pm_runtime_put_autosuspend] t)"
      using False df t(1) by (simp add: rocket_job_handle_done_def ja)
    moreover have "state_wf (emit [Pm_runtime_put_autosuspend] t)"
      using t(2) by (rule state_wf_emit) simp
    moreover have "evolves s (emit [Pm_runtime_put_autosuspend] t)"
      using evolves_trans[of s ?s1 t] t(3) by simp
    ultimately show ?thesis by blast
  qed
qed

lemma irq_ack_no_signal: "Fence_signal f \<notin> set irq_ack"
  by (simp add: irq_ack_def)

lemma rocket_job_handle_irq_wf:
  assumes wf: "state_wf s"
  shows "\<exists>t. rocket_job_handle_irq s = Some t \<and> state_wf t \<and> evolves s t"
proof -
  let ?s1 = "emit irq_ack s"
  have w1: "state_wf ?s1" using wf by (rule state_wf_emit) (simp add: irq_ack_no_signal)
  show ?thesis
  proof (cases "in_flight_job (core s)")
    case None
    then show ?thesis using w1 by (simp add: rocket_job_handle_irq_def Let_def)
  next
    case (Some j)
    then have "in_flight_job (core ?s1) = Some j" by simp
    from rocket_job_handle_done_wf[OF w1 this]
    obtain t where "rocket_job_handle_done ?s1 j = Some t" "state_wf t" "evolves ?s1 t"
      by blast
    then show ?thesis
      using Some evolves_trans[of s ?s1 t] by (simp add: rocket_job_handle_irq_def Let_def)
  qed
qed


lemma irq_line_wf:
  assumes wf: "state_wf s"
  shows "\<exists>t. irq_line s raw = Some t \<and> state_wf t \<and> evolves s t"
proof -
  let ?s1 = "emit (Readl PC_INTERRUPT_RAW_STATUS #
                   (if dma_read_error raw
                    then [Warn_on_dma_read_error, Warn_on_dma_read_error] else [])) s"
  have w1: "state_wf ?s1" using wf by (rule state_wf_emit) simp
  show ?thesis
  proof (cases "dpu_0 raw \<or> dpu_1 raw")
    case False
    then show ?thesis
      using w1 by (simp add: irq_line_def rocket_job_irq_handler_def Let_def)
  next
    case True
    let ?s2 = "emit [Writel PC_INTERRUPT_MASK (Val 0x0)] ?s1"
    have w2: "state_wf ?s2" using w1 by (rule state_wf_emit) simp
    obtain t where t: "rocket_job_handle_irq ?s2 = Some t" "state_wf t" "evolves ?s2 t"
      using rocket_job_handle_irq_wf[OF w2] by blast
    have "irq_line s raw = Some t"
      using True t(1)
      by (simp add: irq_line_def rocket_job_irq_handler_def rocket_job_irq_handler_thread_def
            Let_def)
    moreover have "evolves s t" using evolves_trans[of s ?s2 t] t(3) by simp
    ultimately show ?thesis using t(2) by blast
  qed
qed

lemma synchronize_irq_wf:
  assumes wf: "state_wf s"
  shows "\<exists>t. synchronize_irq hr s = Some t \<and> state_wf t \<and> evolves s t"
proof -
  let ?s1 = "emit [Synchronize_irq] s"
  have w1: "state_wf ?s1" using wf by (rule state_wf_emit) simp
  show ?thesis
  proof (cases hr)
    case False
    then show ?thesis using w1 by (simp add: synchronize_irq_def)
  next
    case True
    obtain t where t: "rocket_job_handle_irq ?s1 = Some t" "state_wf t" "evolves ?s1 t"
      using rocket_job_handle_irq_wf[OF w1] by blast
    then show ?thesis
      using True evolves_trans[of s ?s1 t] by (simp add: synchronize_irq_def)
  qed
qed

lemma drm_sched_wf [simp]:
  "state_wf (drm_sched_stop bad s) = state_wf s"
  "state_wf (drm_sched_increase_karma b s) = state_wf s"
  "state_wf (drm_sched_resubmit_jobs s) = state_wf s"
  "state_wf (drm_sched_start s) = state_wf s"
proof -
  have e: "state_wf (emit [x] u) = state_wf u" if "\<forall>f. x \<noteq> Fence_signal f" for x u
    using that unfolding state_wf_alt by (auto simp: effect_wf_not_signal)
  show "state_wf (drm_sched_stop bad s) = state_wf s"
    "state_wf (drm_sched_increase_karma b s) = state_wf s"
    "state_wf (drm_sched_resubmit_jobs s) = state_wf s"
    "state_wf (drm_sched_start s) = state_wf s"
    by (simp_all add: drm_sched_stop_def drm_sched_increase_karma_def
          drm_sched_resubmit_jobs_def drm_sched_start_def e)
qed

lemma drm_sched_evolves [simp]:
  "evolves s (drm_sched_stop bad t) = evolves s t"
  "evolves s (drm_sched_increase_karma b t) = evolves s t"
  "evolves s (drm_sched_resubmit_jobs t) = evolves s t"
  "evolves s (drm_sched_start t) = evolves s t"
  by (simp_all add: drm_sched_stop_def drm_sched_increase_karma_def
        drm_sched_resubmit_jobs_def drm_sched_start_def)

lemma drm_sched_core [simp]:
  "core (drm_sched_stop bad s) = core s"
  "core (drm_sched_increase_karma b s) = core s"
  "core (drm_sched_resubmit_jobs s) = core s"
  "core (drm_sched_start s) = core s"
  "jobs (drm_sched_stop bad s) = jobs s"
  "jobs (drm_sched_increase_karma b s) = jobs s"
  "jobs (drm_sched_resubmit_jobs s) = jobs s"
  "jobs (drm_sched_start s) = jobs s"
  "fences (drm_sched_stop bad s) = fences s"
  "fences (drm_sched_increase_karma b s) = fences s"
  "fences (drm_sched_resubmit_jobs s) = fences s"
  "fences (drm_sched_start s) = fences s"
  by (simp_all add: drm_sched_stop_def drm_sched_increase_karma_def
        drm_sched_resubmit_jobs_def drm_sched_start_def)

text \<open>The state in which \<open>rocket_reset\<close> calls the bottom half, and the state it ends in
  when the bottom half has returned \<open>t\<close>.\<close>

lemma rocket_reset_unfold:
  assumes "reset_pending (core s)"
  shows "rocket_reset hr s bad =
     (case synchronize_irq hr
             (emit [Writel PC_INTERRUPT_MASK (Val 0x0)]
               ((case bad of None \<Rightarrow> (\<lambda>u. u) | Some b \<Rightarrow> drm_sched_increase_karma b)
                  (drm_sched_stop bad s))) of
        None \<Rightarrow> None
      | Some s4 \<Rightarrow>
          (case rocket_job_handle_irq s4 of
             None \<Rightarrow> None
           | Some s5 \<Rightarrow>
               Some (drm_sched_start (drm_sched_resubmit_jobs
                 (set_reset_pending False
                   (emit [Pm_runtime_force_suspend, Pm_runtime_force_resume]
                     (set_in_flight None
                       (if in_flight_job (core s5) \<noteq> None
                        then emit [Pm_runtime_put_noidle] s5 else s5))))))))"
  using assms by (cases bad) (simp_all add: rocket_reset_def Let_def split: option.splits)

lemma rocket_reset_wf:
  assumes wf: "state_wf s"
  shows "\<exists>t. rocket_reset hr s bad = Some t \<and> state_wf t \<and> evolves s t"
proof (cases "reset_pending (core s)")
  case False
  then show ?thesis using wf by (simp add: rocket_reset_def)
next
  case True
  let ?s3 = "emit [Writel PC_INTERRUPT_MASK (Val 0x0)]
               ((case bad of None \<Rightarrow> (\<lambda>u. u) | Some b \<Rightarrow> drm_sched_increase_karma b)
                  (drm_sched_stop bad s))"
  have w3: "state_wf ?s3"
    by (rule state_wf_emit) (use wf in \<open>simp_all split: option.splits\<close>)
  have e3: "evolves s ?s3" by (simp split: option.splits)
  obtain s4 where s4: "synchronize_irq hr ?s3 = Some s4" "state_wf s4" "evolves ?s3 s4"
    using synchronize_irq_wf[OF w3] by blast
  obtain s5 where s5: "rocket_job_handle_irq s4 = Some s5" "state_wf s5" "evolves s4 s5"
    using rocket_job_handle_irq_wf[OF s4(2)] by blast
  let ?s6 = "if in_flight_job (core s5) \<noteq> None then emit [Pm_runtime_put_noidle] s5 else s5"
  have w6: "state_wf ?s6" using s5(2) by (auto intro: state_wf_emit)
  have e6: "evolves s5 ?s6" by simp
  let ?s8 = "emit [Pm_runtime_force_suspend, Pm_runtime_force_resume] (set_in_flight None ?s6)"
  have w8: "state_wf ?s8"
    using state_wf_clear_in_flight[OF w6] by (rule state_wf_emit) simp
  have e8: "evolves s5 ?s8" using e6 by simp
  let ?t = "drm_sched_start (drm_sched_resubmit_jobs (set_reset_pending False ?s8))"
  have "rocket_reset hr s bad = Some ?t"
    unfolding rocket_reset_unfold[OF True] s4(1) using s5(1) by simp
  moreover have "state_wf ?t" using w8 by simp
  moreover have "evolves s ?t"
    using evolves_trans[OF e3 evolves_trans[OF s4(3) evolves_trans[OF s5(3) e8]]] by simp
  ultimately show ?thesis by blast
qed

lemma done_fence_signaled_wf:
  assumes wf: "state_wf s" and j: "j < length (jobs s)" and df: "done_fence (jobs s ! j) = Some f"
  shows "done_fence_signaled s j = Some (signaled (fences s ! f))"
proof -
  have "job_wf (fences s) (jobs s ! j)" using wf j unfolding state_wf_alt by blast
  then have "f < length (fences s)" using df by (simp add: job_wf_def)
  then show ?thesis
    using j df by (simp add: done_fence_signaled_def job_at_def dma_fence_is_signaled_def
        fence_at_def)
qed

lemma evolves_done_fence:
  assumes "evolves s t" "j < length (jobs s)" "done_fence (jobs s ! j) \<noteq> None"
  shows "j < length (jobs t) \<and> done_fence (jobs t ! j) \<noteq> None"
  using assms unfolding evolves_alt job_progress_def by auto

lemma rocket_job_timedout_wf:
  assumes wf: "state_wf s" and j: "j < length (jobs s)" and df: "done_fence (jobs s ! j) \<noteq> None"
  shows "\<exists>t. rocket_job_timedout env s j = Some t \<and> state_wf t \<and> evolves s t"
proof -
  obtain f where f: "done_fence (jobs s ! j) = Some f" using df by auto
  note sig0 = done_fence_signaled_wf[OF wf j f]
  show ?thesis
  proof (cases "signaled (fences s ! f)")
    case True
    then show ?thesis using wf by (simp add: rocket_job_timedout_def sig0)
  next
    case False
    obtain s1 where s1: "synchronize_irq (handler_running_at_recheck env) s = Some s1"
      "state_wf s1" "evolves s s1"
      using synchronize_irq_wf[OF wf] by blast
    from evolves_done_fence[OF s1(3) j df]
    obtain g where j1: "j < length (jobs s1)" and g: "done_fence (jobs s1 ! j) = Some g"
      by auto
    note sig1 = done_fence_signaled_wf[OF s1(2) j1 g]
    show ?thesis
    proof (cases "signaled (fences s1 ! g)")
      case True
      have "rocket_job_timedout env s j = Some (emit [Dev_warn_irq_latency] s1)"
        using False True by (simp add: rocket_job_timedout_def sig0 s1(1) sig1)
      moreover have "state_wf (emit [Dev_warn_irq_latency] s1)"
        using s1(2) by (rule state_wf_emit) simp
      ultimately show ?thesis using s1(3) by auto
    next
      case g_unsig: False
      let ?s2 = "set_reset_pending True (emit [Dev_err_sched_timeout] s1)"
      have w2: "state_wf ?s2" using state_wf_emit[OF s1(2), of "[Dev_err_sched_timeout]"] by simp
      obtain t where t: "rocket_reset (handler_running_at_reset env) ?s2 (Some j) = Some t"
        "state_wf t" "evolves ?s2 t"
        using rocket_reset_wf[OF w2] by blast
      have "rocket_job_timedout env s j = Some (emit [Iommu_detach_group] t)"
        using False g_unsig t(1) by (simp add: rocket_job_timedout_def sig0 s1(1) sig1)
      moreover have "state_wf (emit [Iommu_detach_group] t)"
        using t(2) by (rule state_wf_emit) simp
      moreover have "evolves s (emit [Iommu_detach_group] t)"
        using evolves_trans[OF s1(3), of t] t(3) by simp
      ultimately show ?thesis by blast
    qed
  qed
qed

lemma step_wf:
  assumes wf: "state_wf s" and ok: "event_ok s e"
  shows "\<exists>t. step s e = Some t \<and> state_wf t \<and> evolves s t"
proof (cases e)
  case (Run_job j env)
  then have "j < length (jobs s)" using ok by (simp add: event_ok_def)
  from rocket_job_run_wf[OF wf this, of env] show ?thesis
    using Run_job by (auto simp: step_def)
next
  case (Irq raw)
  then show ?thesis using irq_line_wf[OF wf, of raw] by (simp add: step_def)
next
  case (Timedout j env)
  then have "j < length (jobs s)" "done_fence (jobs s ! j) \<noteq> None"
    using ok by (simp_all add: event_ok_def)
  from rocket_job_timedout_wf[OF wf this, of env] show ?thesis
    using Timedout by (simp add: step_def)
next
  case (Reset_work hr)
  then show ?thesis
    using rocket_reset_wf[OF wf, of hr None] by (simp add: step_def rocket_reset_work_def)
qed

lemma exec_wf:
  assumes "state_wf s" "events_ok s es"
  shows "\<exists>t. exec s es = Some t \<and> state_wf t \<and> evolves s t"
  using assms
proof (induction es arbitrary: s)
  case Nil
  then show ?case by simp
next
  case (Cons e es)
  then have ok: "event_ok s e" by simp
  obtain s1 where s1: "step s e = Some s1" "state_wf s1" "evolves s s1"
    using step_wf[OF Cons.prems(1) ok] by blast
  have "events_ok s1 es" using Cons.prems(2) s1(1) by simp
  from Cons.IH[OF s1(2) this]
  obtain t where "exec s1 es = Some t" "state_wf t" "evolves s1 t" by blast
  then show ?case using s1 evolves_trans[of s s1 t] by simp
qed

subsection \<open>What the handlers leave unchanged, and what they do\<close>

lemma rocket_job_hw_submit_frame:
  assumes "rocket_job_hw_submit s j = Some t"
  shows "resets t = resets s \<and> core t = core s \<and> fences t = fences s \<and>
         sched_pending t = sched_pending s \<and>
         map done_fence (jobs t) = map done_fence (jobs s) \<and>
         (\<forall>f. signals t f = signals s f) \<and>
         (reset_pending (core s) \<longrightarrow> t = s)"
  using assms
  by (auto simp: rocket_job_hw_submit_def job_at_def Let_def map_update_same
        split: if_splits option.splits)

lemma dma_fence_signal_locked_frame:
  assumes "dma_fence_signal_locked f s = Some t"
  shows "resets t = resets s \<and> core t = core s \<and> jobs t = jobs s \<and>
         sched_pending t = sched_pending s \<and> dispatches t = dispatches s"
  using assms
  by (auto simp: dma_fence_signal_locked_def fence_at_def resets_def dispatches_def
        split: if_splits option.splits)

lemma rocket_job_handle_done_frame:
  assumes "rocket_job_handle_done s j = Some t"
  shows "resets t = resets s \<and> reset_pending (core t) = reset_pending (core s) \<and>
         sched_pending t = sched_pending s \<and>
         map done_fence (jobs t) = map done_fence (jobs s) \<and>
         (reset_pending (core s) \<longrightarrow> jobs t = jobs s \<and> dispatches t = dispatches s)"
proof (cases "next_task_idx (jobs s ! j) < task_count (jobs s ! j)")
  case True
  then have "rocket_job_hw_submit s j = Some t"
    using assms by (auto simp: rocket_job_handle_done_def job_at_def split: option.splits if_splits)
  from rocket_job_hw_submit_frame[OF this] show ?thesis by auto
next
  case False
  then obtain f u where
    u: "dma_fence_signal_locked f (emit [Iommu_detach_group] (set_in_flight None s)) = Some u"
    and t: "t = emit [Pm_runtime_put_autosuspend] u"
    using assms by (auto simp: rocket_job_handle_done_def job_at_def split: option.splits if_splits)
  from dma_fence_signal_locked_frame[OF u] show ?thesis
    by (auto simp: t)
qed

lemma rocket_job_handle_irq_frame:
  assumes "rocket_job_handle_irq s = Some t"
  shows "resets t = resets s \<and> reset_pending (core t) = reset_pending (core s) \<and>
         sched_pending t = sched_pending s \<and>
         map done_fence (jobs t) = map done_fence (jobs s) \<and>
         (reset_pending (core s) \<longrightarrow> jobs t = jobs s \<and> dispatches t = dispatches s)"
proof (cases "in_flight_job (core s)")
  case None
  then show ?thesis using assms by (auto simp: rocket_job_handle_irq_def Let_def)
next
  case (Some j)
  then have "rocket_job_handle_done (emit irq_ack s) j = Some t"
    using assms by (simp add: rocket_job_handle_irq_def Let_def)
  from rocket_job_handle_done_frame[OF this] show ?thesis by simp
qed

lemma synchronize_irq_frame:
  assumes "synchronize_irq hr s = Some t"
  shows "resets t = resets s \<and> reset_pending (core t) = reset_pending (core s) \<and>
         sched_pending t = sched_pending s \<and>
         map done_fence (jobs t) = map done_fence (jobs s) \<and>
         (reset_pending (core s) \<longrightarrow> jobs t = jobs s \<and> dispatches t = dispatches s)"
proof (cases hr)
  case True
  then have "rocket_job_handle_irq (emit [Synchronize_irq] s) = Some t"
    using assms by (simp add: synchronize_irq_def)
  from rocket_job_handle_irq_frame[OF this] show ?thesis by simp
next
  case False
  then show ?thesis using assms by (auto simp: synchronize_irq_def)
qed


lemma handle_irq_empty_slot_aux:
  "in_flight_job (core s) = None \<Longrightarrow> rocket_job_handle_irq s = Some (emit irq_ack s)"
  by (simp add: rocket_job_handle_irq_def Let_def)

lemma in_flight_props:
  assumes wf: "state_wf s" and fl: "in_flight_job (core s) = Some j"
  shows "j < length (jobs s) \<and> job_wf (fences s) (jobs s ! j) \<and>
         (\<exists>f. done_fence (jobs s ! j) = Some f \<and> f < length (fences s) \<and>
              \<not> signaled (fences s ! f))"
proof -
  have ifw: "in_flight_wf s" using wf unfolding state_wf_alt by blast
  then have j: "j < length (jobs s)" using fl by (simp add: in_flight_wf_def)
  have jw: "job_wf (fences s) (jobs s ! j)" using wf j unfolding state_wf_alt by blast
  obtain f where "done_fence (jobs s ! j) = Some f" "\<not> signaled (fences s ! f)"
    using ifw fl by (auto simp: in_flight_wf_def split: option.splits)
  then show ?thesis using j jw by (auto simp: job_wf_def)
qed

lemma handle_irq_dispatch:
  assumes wf: "state_wf s" and fl: "in_flight_job (core s) = Some j"
    and lt: "next_task_idx (jobs s ! j) < task_count (jobs s ! j)"
    and np: "\<not> reset_pending (core s)"
  shows "rocket_job_handle_irq s =
           Some (emit (hw_submit_writes (index (core s))
                         (tasks (jobs s ! j) ! unat (next_task_idx (jobs s ! j))))
                   (job_upd j (\<lambda>jb. jb\<lparr>next_task_idx := next_task_idx jb + 1\<rparr>)
                      (emit irq_ack s)))"
proof -
  from in_flight_props[OF wf fl] have j: "j < length (jobs s)"
    and jw: "job_wf (fences s) (jobs s ! j)" by auto
  have len: "unat (next_task_idx (jobs s ! j)) < length (tasks (jobs s ! j))"
    using jw lt by (simp add: job_wf_def word_less_nat_alt)
  have "rocket_job_hw_submit (emit irq_ack s) j =
          Some (emit (hw_submit_writes (index (core s))
                        (tasks (jobs s ! j) ! unat (next_task_idx (jobs s ! j))))
                  (job_upd j (\<lambda>jb. jb\<lparr>next_task_idx := next_task_idx jb + 1\<rparr>)
                     (emit irq_ack s)))"
    using rocket_job_hw_submit_go[of "emit irq_ack s" j] np j len by simp
  then show ?thesis
    using fl lt j by (simp add: rocket_job_handle_irq_def Let_def rocket_job_handle_done_def job_at_def)
qed

lemma handle_irq_deferred:
  assumes wf: "state_wf s" and fl: "in_flight_job (core s) = Some j"
    and lt: "next_task_idx (jobs s ! j) < task_count (jobs s ! j)"
    and p: "reset_pending (core s)"
  shows "rocket_job_handle_irq s = Some (emit irq_ack s)"
proof -
  from in_flight_props[OF wf fl] have j: "j < length (jobs s)" by auto
  show ?thesis
    using fl lt j p
    by (simp add: rocket_job_handle_irq_def Let_def rocket_job_handle_done_def job_at_def
          rocket_job_hw_submit_pending)
qed

lemma handle_irq_complete:
  assumes wf: "state_wf s" and fl: "in_flight_job (core s) = Some j"
    and ge: "\<not> next_task_idx (jobs s ! j) < task_count (jobs s ! j)"
  shows "\<exists>f. done_fence (jobs s ! j) = Some f \<and> f < length (fences s) \<and>
             \<not> signaled (fences s ! f) \<and>
             next_task_idx (jobs s ! j) = task_count (jobs s ! j) \<and>
             rocket_job_handle_irq s =
               Some (emit [Pm_runtime_put_autosuspend]
                      (emit [Fence_signal f]
                        ((emit [Iommu_detach_group] (set_in_flight None (emit irq_ack s)))
                           \<lparr>fences := (fences s)[f := (fences s ! f)\<lparr>signaled := True\<rparr>]\<rparr>)))"
proof -
  from in_flight_props[OF wf fl] obtain f where j: "j < length (jobs s)"
    and jw: "job_wf (fences s) (jobs s ! j)"
    and f: "done_fence (jobs s ! j) = Some f" "f < length (fences s)"
      "\<not> signaled (fences s ! f)" by auto
  have eq: "next_task_idx (jobs s ! j) = task_count (jobs s ! j)"
    using jw ge by (auto simp: job_wf_def)
  show ?thesis
    using fl ge j f eq
    by (simp add: rocket_job_handle_irq_def Let_def rocket_job_handle_done_def job_at_def
          dma_fence_signal_locked_def fence_at_def)
qed

lemmas run_defs =
  step_def rocket_job_run_def rocket_job_hw_submit_def rocket_job_handle_done_def
  rocket_job_handle_irq_def rocket_job_irq_handler_def rocket_job_irq_handler_thread_def
  irq_line_def synchronize_irq_def rocket_reset_def rocket_job_timedout_def
  rocket_reset_work_def done_fence_signaled_def dma_fence_is_signaled_def
  dma_fence_signal_locked_def rocket_fence_create_def job_at_def fence_at_def
  drm_sched_stop_def drm_sched_increase_karma_def drm_sched_resubmit_jobs_def
  drm_sched_start_def Let_def

lemmas example_defs =
  idle_state_def new_job_def zero_job_def ok_env_def quiet_def late_irq_def completion_def
  late_irq_at_recheck_def
  stalled_state_def running_state_def finishing_state_def task_a_def task_b_def

lemma drm_sched_counts [simp]:
  "resets (drm_sched_stop bad s) = resets s"
  "resets (drm_sched_increase_karma b s) = resets s"
  "resets (drm_sched_resubmit_jobs s) = resets s"
  "resets (drm_sched_start s) = resets s"
  "dispatches (drm_sched_stop bad s) = dispatches s"
  "dispatches (drm_sched_increase_karma b s) = dispatches s"
  "dispatches (drm_sched_resubmit_jobs s) = dispatches s"
  "dispatches (drm_sched_start s) = dispatches s"
  "sched_pending (drm_sched_stop bad s) = sched_pending s"
  "sched_pending (drm_sched_increase_karma b s) = sched_pending s"
  "sched_pending (drm_sched_resubmit_jobs s) = sched_pending s"
  "sched_pending (drm_sched_start s) = sched_pending s"
  "sched_resubmitted (drm_sched_resubmit_jobs s) = sched_pending s"
  "sched_resubmitted (drm_sched_start s) = sched_resubmitted s"
  by (simp_all add: drm_sched_stop_def drm_sched_increase_karma_def
        drm_sched_resubmit_jobs_def drm_sched_start_def resets_def dispatches_def)

lemma rocket_reset_effect:
  assumes wf: "state_wf s" and p: "reset_pending (core s)"
  shows "\<exists>t. rocket_reset hr s bad = Some t \<and> state_wf t \<and>
           \<not> reset_pending (core t) \<and> in_flight_job (core t) = None \<and>
           jobs t = jobs s \<and> resets t = resets s + 1 \<and> dispatches t = dispatches s \<and>
           sched_resubmitted t = sched_pending s"
proof -
  let ?s3 = "emit [Writel PC_INTERRUPT_MASK (Val 0x0)]
               ((case bad of None \<Rightarrow> (\<lambda>u. u) | Some b \<Rightarrow> drm_sched_increase_karma b)
                  (drm_sched_stop bad s))"
  have w3: "state_wf ?s3"
    by (rule state_wf_emit) (use wf in \<open>simp_all split: option.splits\<close>)
  have f3: "reset_pending (core ?s3)" "jobs ?s3 = jobs s" "resets ?s3 = resets s"
    "dispatches ?s3 = dispatches s" "sched_pending ?s3 = sched_pending s"
    using p by (simp_all split: option.splits)
  obtain s4 where s4: "synchronize_irq hr ?s3 = Some s4" "state_wf s4"
    using synchronize_irq_wf[OF w3] by blast
  from synchronize_irq_frame[OF s4(1)] f3
  have f4: "reset_pending (core s4)" "jobs s4 = jobs s" "resets s4 = resets s"
    "dispatches s4 = dispatches s" "sched_pending s4 = sched_pending s"
    by simp_all
  obtain s5 where s5: "rocket_job_handle_irq s4 = Some s5" "state_wf s5"
    using rocket_job_handle_irq_wf[OF s4(2)] by blast
  from rocket_job_handle_irq_frame[OF s5(1)] f4
  have f5: "reset_pending (core s5)" "jobs s5 = jobs s" "resets s5 = resets s"
    "dispatches s5 = dispatches s" "sched_pending s5 = sched_pending s"
    by simp_all
  let ?s6 = "if in_flight_job (core s5) \<noteq> None then emit [Pm_runtime_put_noidle] s5 else s5"
  have w6: "state_wf ?s6" using s5(2) by (auto intro: state_wf_emit)
  let ?s8 = "emit [Pm_runtime_force_suspend, Pm_runtime_force_resume] (set_in_flight None ?s6)"
  have w8: "state_wf ?s8"
    using state_wf_clear_in_flight[OF w6] by (rule state_wf_emit) simp
  let ?t = "drm_sched_start (drm_sched_resubmit_jobs (set_reset_pending False ?s8))"
  have "rocket_reset hr s bad = Some ?t"
    unfolding rocket_reset_unfold[OF p] s4(1) using s5(1) by simp
  moreover have "state_wf ?t" using w8 by simp
  ultimately show ?thesis using f5 by (intro exI[of _ ?t]) simp
qed

lemma rocket_job_run_nothing:
  assumes "j < length (jobs s)" "next_task_idx (jobs s ! j) = task_count (jobs s ! j)"
  shows "rocket_job_run env s j = Some (Ret_NULL, s)"
  using assms by (simp add: rocket_job_run_def job_at_def)

lemma rocket_job_run_resume:
  assumes wf: "state_wf s" and j: "j < length (jobs s)"
    and lt: "next_task_idx (jobs s ! j) < task_count (jobs s ! j)"
    and fe: "finished_error (jobs s ! j) = 0"
    and np: "\<not> reset_pending (core s)"
    and env: "fence_alloc_ok env" "0 \<le> pm_runtime_get_sync_ret env"
      "0 \<le> iommu_attach_group_ret env"
  shows "\<exists>u. rocket_job_run env s j = Some (Ret_fence (length (fences s)), u) \<and>
           in_flight_job (core u) = Some j \<and>
           done_fence (jobs u ! j) = Some (length (fences s)) \<and>
           fences u = fences s @ [\<lparr>seqno = emit_seqno (core s) + 1, signaled = False\<rparr>] \<and>
           effects u = effects s @
             [Pm_runtime_get_sync, Iommu_attach_group (domain (jobs s ! j))] @
             hw_submit_writes (index (core s))
               (tasks (jobs s ! j) ! unat (next_task_idx (jobs s ! j))) \<and>
           next_task_idx (jobs u ! j) = next_task_idx (jobs s ! j) + 1 \<and>
           reset_pending (core u) = reset_pending (core s) \<and>
           dispatches u = dispatches s + 1"
proof -
  have jw: "job_wf (fences s) (jobs s ! j)" using wf j unfolding state_wf_alt by blast
  have len: "unat (next_task_idx (jobs s ! j)) < length (tasks (jobs s ! j))"
    using jw lt by (simp add: job_wf_def word_less_nat_alt)
  have ne: "next_task_idx (jobs s ! j) \<noteq> task_count (jobs s ! j)" using lt by simp
  show ?thesis
    using j fe ne np env len
    by (simp add: rocket_job_run_def job_at_def rocket_fence_create_ok Let_def
          rocket_job_hw_submit_def not_less[symmetric] del: not_less)
qed


lemma map_eq_nth:
  assumes "map f xs = map f ys" "j < length xs"
  shows "j < length ys \<and> f (ys ! j) = f (xs ! j)"
proof -
  have l: "length xs = length ys" using assms(1) by (rule map_eq_imp_length_eq)
  have "map f xs ! j = map f ys ! j" using assms(1) by simp
  then show ?thesis using l assms(2) by simp
qed

lemmas wf_defs =
  state_wf_def jobs_distinct_def in_flight_wf_def signals_wf_def job_wf_def signals_def
  effect_wf_def

lemma after_examples:
  "exec (idle_state [new_job [task_a]]) [Run_job 0 ok_env] \<noteq> None"
  "exec (idle_state [new_job [task_a]]) [Run_job 0 ok_env, Irq completion] \<noteq> None"
  by (simp_all add: run_defs example_defs)


lemma exec_append:
  "exec s (es @ es') = (case exec s es of None \<Rightarrow> None | Some t \<Rightarrow> exec t es')"
  by (induction es arbitrary: s) (simp_all split: option.splits)

lemma events_ok_append:
  assumes "events_ok s (es @ es')"
  shows "events_ok s es \<and> (\<forall>t. exec s es = Some t \<longrightarrow> events_ok t es')"
  using assms by (induction es arbitrary: s) (auto split: option.splits)

lemma handle_irq_complete_no_dispatch:
  assumes wf: "state_wf s" and fl: "in_flight_job (core s) = Some j"
    and eq: "next_task_idx (jobs s ! j) = task_count (jobs s ! j)"
  shows "\<exists>u. rocket_job_handle_irq s = Some u \<and> dispatches u = dispatches s"
proof -
  have "\<not> next_task_idx (jobs s ! j) < task_count (jobs s ! j)" using eq by simp
  from handle_irq_complete[OF wf fl this] show ?thesis by auto
qed


subsection \<open>A job that runs without a timeout\<close>

lemma irq_line_completion:
  assumes "dpu_0 raw \<or> dpu_1 raw"
  shows "irq_line s raw =
           rocket_job_handle_irq
             (emit (Readl PC_INTERRUPT_RAW_STATUS #
                    (if dma_read_error raw
                     then [Warn_on_dma_read_error, Warn_on_dma_read_error] else []) @
                    [Writel PC_INTERRUPT_MASK (Val 0x0)]) s)"
  using assms
  by (cases "rocket_job_handle_irq
             (emit (Readl PC_INTERRUPT_RAW_STATUS #
                    (if dma_read_error raw
                     then [Warn_on_dma_read_error, Warn_on_dma_read_error] else []) @
                    [Writel PC_INTERRUPT_MASK (Val 0x0)]) s)")
     (simp_all add: irq_line_def rocket_job_irq_handler_def rocket_job_irq_handler_thread_def
        Let_def emit_def)

lemma signals_le_1:
  assumes wf: "state_wf s"
  shows "signals s f \<le> 1"
proof (cases "f < length (fences s)")
  case True
  then show ?thesis using wf unfolding state_wf_alt by auto
next
  case False
  have "\<forall>e\<in>set (effects s). effect_wf (length (fences s)) e"
    using wf unfolding state_wf_alt by blast
  from signals_fresh[OF this, of f] False show ?thesis by simp
qed

lemma signals_iff_signaled:
  assumes wf: "state_wf s" and f: "f < length (fences s)"
  shows "signals s f = (if signaled (fences s ! f) then 1 else 0)"
  using wf f unfolding state_wf_alt by blast

lemma nominal_run:
  assumes wf: "state_wf s" and j: "j < length (jobs s)"
    and fresh: "next_task_idx (jobs s ! j) = 0" and n: "0 < task_count (jobs s ! j)"
    and fe: "finished_error (jobs s ! j) = 0" and np: "\<not> reset_pending (core s)"
    and env: "fence_alloc_ok env" "0 \<le> pm_runtime_get_sync_ret env"
      "0 \<le> iommu_attach_group_ret env"
    and raw: "dpu_0 raw \<or> dpu_1 raw"
  shows "\<exists>t. exec s (Run_job j env # replicate k (Irq raw)) = Some t \<and> state_wf t \<and>
           j < length (jobs t) \<and> \<not> reset_pending (core t) \<and>
           task_count (jobs t ! j) = task_count (jobs s ! j) \<and>
           done_fence (jobs t ! j) = Some (length (fences s)) \<and>
           length (fences s) < length (fences t) \<and>
           (if k < unat (task_count (jobs s ! j))
            then \<not> signaled (fences t ! length (fences s)) \<and>
                 unat (next_task_idx (jobs t ! j)) = k + 1 \<and>
                 in_flight_job (core t) = Some j \<and>
                 dispatches t = dispatches s + k + 1
            else signaled (fences t ! length (fences s)) \<and>
                 next_task_idx (jobs t ! j) = task_count (jobs s ! j) \<and>
                 in_flight_job (core t) = None \<and>
                 dispatches t = dispatches s + unat (task_count (jobs s ! j)))"
    (is "\<exists>t. ?R k t")
proof (induction k)
  case 0
  have lt: "next_task_idx (jobs s ! j) < task_count (jobs s ! j)" using fresh n by simp
  from rocket_job_run_resume[OF wf j lt fe np env]
  obtain u where u: "rocket_job_run env s j = Some (Ret_fence (length (fences s)), u)"
    "in_flight_job (core u) = Some j" "done_fence (jobs u ! j) = Some (length (fences s))"
    "fences u = fences s @ [\<lparr>seqno = emit_seqno (core s) + 1, signaled = False\<rparr>]"
    "next_task_idx (jobs u ! j) = next_task_idx (jobs s ! j) + 1"
    "reset_pending (core u) = reset_pending (core s)" "dispatches u = dispatches s + 1"
    by blast
  from rocket_job_run_wf[OF wf j, of env] u(1)
  have wu: "state_wf u" and eu: "evolves s u" by auto
  have ju: "j < length (jobs u)" and tc: "task_count (jobs u ! j) = task_count (jobs s ! j)"
    using eu j unfolding evolves_alt job_progress_def by auto
  have n0: "0 < unat (task_count (jobs s ! j))" using n by (simp add: word_less_nat_alt)
  have "?R 0 u"
    using u wu ju tc np n0 fresh by (simp add: step_def)
  then show ?case by blast
next
  case (Suc k)
  let ?N = "task_count (jobs s ! j)"
  let ?f = "length (fences s)"
  from Suc obtain t where t: "?R k t" by blast
  then have et: "exec s (Run_job j env # replicate k (Irq raw)) = Some t"
    and wt: "state_wf t" and jt: "j < length (jobs t)" and npt: "\<not> reset_pending (core t)"
    and tct: "task_count (jobs t ! j) = ?N" and dft: "done_fence (jobs t ! j) = Some ?f"
    and flt: "?f < length (fences t)"
    by simp_all
  let ?X = "Readl PC_INTERRUPT_RAW_STATUS #
              (if dma_read_error raw
               then [Warn_on_dma_read_error, Warn_on_dma_read_error] else []) @
              [Writel PC_INTERRUPT_MASK (Val 0x0)]"
  let ?t1 = "emit ?X t"
  have w1: "state_wf ?t1" using wt by (rule state_wf_emit) simp
  have d1: "dispatches ?t1 = dispatches t" by simp
  have ex: "exec s (Run_job j env # replicate (Suc k) (Irq raw)) = rocket_job_handle_irq ?t1"
  proof -
    let ?L = "Run_job j env # replicate k (Irq raw)"
    have a: "Run_job j env # replicate (Suc k) (Irq raw) = ?L @ [Irq raw]"
      by (simp add: replicate_append_same)
    have b: "exec s (?L @ [Irq raw]) = exec t [Irq raw]"
      by (simp only: exec_append et option.case)
    have c: "exec t [Irq raw] = irq_line t raw"
      by (simp add: step_def split: option.splits)
    show ?thesis
      unfolding a b c by (rule irq_line_completion[OF raw])
  qed
  show ?case
  proof (cases "k < unat ?N")
    case True
    with t have ust: "\<not> signaled (fences t ! ?f)"
      and it: "unat (next_task_idx (jobs t ! j)) = k + 1"
      and fl: "in_flight_job (core t) = Some j"
      and dt: "dispatches t = dispatches s + k + 1" by simp_all
    have fl1: "in_flight_job (core ?t1) = Some j" using fl by simp
    show ?thesis
    proof (cases "Suc k < unat ?N")
      case True
      then have lt: "next_task_idx (jobs ?t1 ! j) < task_count (jobs ?t1 ! j)"
        using it tct by (simp add: word_less_nat_alt)
      have np1: "\<not> reset_pending (core ?t1)" using npt by simp
      let ?u = "emit (hw_submit_writes (index (core ?t1))
                         (tasks (jobs ?t1 ! j) ! unat (next_task_idx (jobs ?t1 ! j))))
                   (job_upd j (\<lambda>jb. jb\<lparr>next_task_idx := next_task_idx jb + 1\<rparr>)
                      (emit irq_ack ?t1))"
      have hu: "rocket_job_handle_irq ?t1 = Some ?u"
        by (rule handle_irq_dispatch[OF w1 fl1 lt np1])
      have wu: "state_wf ?u"
        using rocket_job_handle_irq_wf[OF w1] hu by auto
      have iu: "unat (next_task_idx (jobs ?u ! j)) = Suc k + 1"
        using jt it word_unat_Suc[OF lt] by simp
      have "?R (Suc k) ?u"
        using ex hu wu jt npt tct dft flt ust iu fl dt True d1 by simp
      then show ?thesis by blast
    next
      case False
      with \<open>k < unat ?N\<close> have kn: "Suc k = unat ?N" by simp
      then have eq: "next_task_idx (jobs ?t1 ! j) = task_count (jobs ?t1 ! j)"
        using it tct by (simp add: word_unat_eq_iff)
      then have ge: "\<not> next_task_idx (jobs ?t1 ! j) < task_count (jobs ?t1 ! j)" by simp
      from handle_irq_complete[OF w1 fl1 ge] dft
      obtain u where hu: "rocket_job_handle_irq ?t1 = Some u"
        and u: "u = emit [Pm_runtime_put_autosuspend]
                      (emit [Fence_signal ?f]
                        ((emit [Iommu_detach_group] (set_in_flight None (emit irq_ack ?t1)))
                           \<lparr>fences := (fences ?t1)[?f := (fences ?t1 ! ?f)\<lparr>signaled := True\<rparr>]\<rparr>))"
        by auto
      have wu: "state_wf u"
        using rocket_job_handle_irq_wf[OF w1] hu by auto
      have "?R (Suc k) u"
        using ex hu wu jt npt tct dft flt dt kn eq d1 by (simp add: u)
      then show ?thesis by blast
    qed
  next
    case False
    with t have st: "signaled (fences t ! ?f)"
      and it: "next_task_idx (jobs t ! j) = ?N"
      and fl: "in_flight_job (core t) = None"
      and dt: "dispatches t = dispatches s + unat ?N" by simp_all
    have fl1: "in_flight_job (core ?t1) = None" using fl by simp
    from handle_irq_empty_slot_aux[OF fl1]
    have hu: "rocket_job_handle_irq ?t1 = Some (emit irq_ack ?t1)" .
    have wu: "state_wf (emit irq_ack ?t1)"
      using rocket_job_handle_irq_wf[OF w1] hu by auto
    have "?R (Suc k) (emit irq_ack ?t1)"
      using ex hu wu jt npt tct dft flt st it fl dt False d1 by simp
    then show ?thesis by blast
  qed
qed


lemma rocket_job_run_signals:
  assumes "rocket_job_run env s j = Some (r, t)"
  shows "signals t f = signals s f"
proof -
  have hs: "signals u f = signals v f" if "rocket_job_hw_submit v j = Some u" for u v
    using rocket_job_hw_submit_frame[OF that] by simp
  show ?thesis
    using assms
    by (auto simp: rocket_job_run_def rocket_fence_create_def Let_def job_at_def
          split: if_splits option.splits prod.splits dest!: hs)
qed

lemma handle_irq_no_signal:
  assumes wf: "state_wf s" and fl: "in_flight_job (core s) = Some j"
    and lt: "next_task_idx (jobs s ! j) < task_count (jobs s ! j)"
  shows "\<exists>t. rocket_job_handle_irq s = Some t \<and> signals t f = signals s f"
proof (cases "reset_pending (core s)")
  case True
  then show ?thesis using handle_irq_deferred[OF wf fl lt] by simp
next
  case False
  then show ?thesis using handle_irq_dispatch[OF wf fl lt] by simp
qed


subsection \<open>The example states are well-formed\<close>

lemma example_wf:
  "state_wf (idle_state [new_job [task_a]])"
  "state_wf (idle_state [new_job [task_a, task_b]])"
  "state_wf stalled_state"
  "state_wf running_state"
  "state_wf finishing_state"
  by (simp_all add: state_wf_def jobs_distinct_def in_flight_wf_def signals_wf_def job_wf_def
       idle_state_def new_job_def zero_job_def stalled_state_def signals_def
       running_state_def finishing_state_def)

section \<open>The claims about the execution side\<close>

text \<open>
  C10. If the completion handler runs while the core's in-flight slot is empty, it changes
  no job state: the jobs and the fences are as before, no fence is signaled, no task is
  dispatched and the slot stays empty. All it does is its bookkeeping on the interrupt
  registers (\<open>irq_ack\<close>).
\<close>

theorem handle_irq_empty_slot:
  assumes "in_flight_job (core s) = None"
  shows "\<exists>t. rocket_job_handle_irq s = Some t \<and>
           jobs t = jobs s \<and> fences t = fences s \<and> core t = core s \<and>
           in_flight_job (core t) = None \<and>
           (\<forall>f. signals t f = signals s f) \<and> dispatches t = dispatches s \<and>
           effects t = effects s @ irq_ack"
  using assms
  by (simp add: rocket_job_handle_irq_def Let_def irq_ack_no_signal dispatches_def irq_ack_def)

theorem handle_irq_empty_slot_witness:
  "in_flight_job (core (idle_state [new_job [task_a]])) = None \<and>
   (\<exists>t. rocket_job_handle_irq (idle_state [new_job [task_a]]) = Some t \<and>
      jobs t = [new_job [task_a]] \<and> fences t = [] \<and> in_flight_job (core t) = None \<and>
      dispatches t = 0 \<and> effects t = irq_ack)"
  using handle_irq_empty_slot[of "idle_state [new_job [task_a]]"]
  by (auto simp: idle_state_def dispatches_def)

text \<open>
  C6 (as amended). Every run of the bottom half with a job in the in-flight slot, in a
  well-formed state, returns, and:
  if the job's cursor is below its task count and no reset is pending on the core, the
  task at the cursor is programmed and started on the same core at once (the register
  writes of that task follow the handler's bookkeeping, no call into the scheduler is
  made), the cursor advances by one and the job stays in flight;
  if the cursor is below the task count and a reset is pending, nothing is dispatched:
  the handler only does its bookkeeping;
  if the cursor equals the task count, the in-flight slot is cleared, the execution domain
  is detached from the core and the job's done-fence is signaled.
\<close>

theorem handle_irq_in_flight:
  assumes wf: "state_wf s" and fl: "in_flight_job (core s) = Some j"
  shows "\<exists>t. rocket_job_handle_irq s = Some t \<and>
     (next_task_idx (jobs s ! j) < task_count (jobs s ! j) \<and> \<not> reset_pending (core s) \<longrightarrow>
        effects t = effects s @ irq_ack @
          hw_submit_writes (index (core s))
            (tasks (jobs s ! j) ! unat (next_task_idx (jobs s ! j))) \<and>
        next_task_idx (jobs t ! j) = next_task_idx (jobs s ! j) + 1 \<and>
        core t = core s \<and> fences t = fences s \<and> dispatches t = dispatches s + 1) \<and>
     (next_task_idx (jobs s ! j) < task_count (jobs s ! j) \<and> reset_pending (core s) \<longrightarrow>
        t = emit irq_ack s \<and> dispatches t = dispatches s) \<and>
     (next_task_idx (jobs s ! j) = task_count (jobs s ! j) \<longrightarrow>
        in_flight_job (core t) = None \<and> jobs t = jobs s \<and> dispatches t = dispatches s \<and>
        (\<exists>f. done_fence (jobs s ! j) = Some f \<and> signaled (fences t ! f) \<and>
             effects t = effects s @ irq_ack @
               [Iommu_detach_group, Fence_signal f, Pm_runtime_put_autosuspend]))"
proof (cases "next_task_idx (jobs s ! j) < task_count (jobs s ! j)")
  case True
  then have ne: "next_task_idx (jobs s ! j) \<noteq> task_count (jobs s ! j)" by simp
  from in_flight_props[OF wf fl] have j: "j < length (jobs s)" by auto
  show ?thesis
  proof (cases "reset_pending (core s)")
    case True
    then show ?thesis
      using handle_irq_deferred[OF wf fl \<open>next_task_idx (jobs s ! j) < task_count (jobs s ! j)\<close>] ne
      by simp
  next
    case False
    then show ?thesis
      using handle_irq_dispatch[OF wf fl True False] ne j by simp
  qed
next
  case False
  from handle_irq_complete[OF wf fl False] show ?thesis
    using False by auto
qed

theorem handle_irq_in_flight_witness:
  "state_wf running_state \<and> in_flight_job (core running_state) = Some 0 \<and>
   (\<exists>t. rocket_job_handle_irq running_state = Some t \<and>
      effects t = irq_ack @ hw_submit_writes 0 task_b \<and>
      next_task_idx (jobs t ! 0) = 2 \<and> dispatches t = 1) \<and>
   state_wf finishing_state \<and> in_flight_job (core finishing_state) = Some 0 \<and>
   (\<exists>t. rocket_job_handle_irq finishing_state = Some t \<and>
      in_flight_job (core t) = None \<and> signaled (fences t ! 0) \<and>
      effects t = irq_ack @ [Iommu_detach_group, Fence_signal 0, Pm_runtime_put_autosuspend])"
  using handle_irq_in_flight[OF example_wf(4), of 0] handle_irq_in_flight[OF example_wf(5), of 0]
    example_wf(4,5)
  by (auto simp: running_state_def finishing_state_def stalled_state_def new_job_def
      zero_job_def dispatches_def)

text \<open>The claim as stated fails while a reset is pending: the bottom half handles a
  completion of the first of two tasks, the cursor (1) is below the task count (2), and
  nothing is dispatched. The same happens in a run through the entry points, when the
  handler is still running at the moment the reset synchronises with the interrupt line:
  one task has been started before the timeout and none is started by the handler.\<close>

theorem handle_irq_pending_counterexample:
  "state_wf stalled_state \<and> in_flight_job (core stalled_state) = Some 0 \<and>
   next_task_idx (jobs stalled_state ! 0) < task_count (jobs stalled_state ! 0) \<and>
   rocket_job_handle_irq stalled_state = Some (emit irq_ack stalled_state) \<and>
   dispatches (emit irq_ack stalled_state) = dispatches stalled_state \<and>
   next_task_idx (jobs (emit irq_ack stalled_state) ! 0) = 1 \<and>
   exec (idle_state [new_job [task_a, task_b]]) [Run_job 0 ok_env, Timedout 0 late_irq] \<noteq> None \<and>
   dispatches (the (exec (idle_state [new_job [task_a, task_b]])
                      [Run_job 0 ok_env, Timedout 0 late_irq])) = 1 \<and>
   next_task_idx (jobs (the (exec (idle_state [new_job [task_a, task_b]])
                      [Run_job 0 ok_env, Timedout 0 late_irq])) ! 0) = 1"
proof -
  have a: "rocket_job_handle_irq stalled_state = Some (emit irq_ack stalled_state)"
    using handle_irq_deferred[OF example_wf(3), of 0]
    by (simp add: stalled_state_def new_job_def zero_job_def)
  have b: "exec (idle_state [new_job [task_a, task_b]]) [Run_job 0 ok_env, Timedout 0 late_irq]
             \<noteq> None"
    by (simp add: run_defs example_defs)
  have c: "dispatches (the (exec (idle_state [new_job [task_a, task_b]])
                      [Run_job 0 ok_env, Timedout 0 late_irq])) = 1"
    by (simp add: run_defs example_defs dispatches_def hw_submit_writes_def irq_ack_def)
  have d: "next_task_idx (jobs (the (exec (idle_state [new_job [task_a, task_b]])
                      [Run_job 0 ok_env, Timedout 0 late_irq])) ! 0) = 1"
    by (simp add: run_defs example_defs)
  show ?thesis
    using a b c d example_wf(3)
    by (simp add: stalled_state_def new_job_def zero_job_def)
qed

text \<open>
  C7. In a well-formed state, for a job that has a done-fence, \<open>rocket_job_timedout\<close>
  returns, and it performs a hardware reset (a forced suspend and resume of the core)
  only if the done-fence is unsignaled when it is called and still unsignaled after
  \<open>synchronize_irq\<close> (state \<open>s1\<close>). If the fence is signaled at the first check nothing
  changes at all; if it is signaled at the second check the timeout only logs a warning:
  no reset is performed and no reset is marked pending. If it is unsignaled at both
  checks, exactly one reset is performed.
\<close>

theorem timedout_reset_guard:
  assumes wf: "state_wf s" and j: "j < length (jobs s)"
    and df: "done_fence (jobs s ! j) = Some f"
  shows "\<exists>s1 t. synchronize_irq (handler_running_at_recheck env) s = Some s1 \<and>
           rocket_job_timedout env s j = Some t \<and>
           done_fence (jobs s1 ! j) = Some f \<and>
           (resets s < resets t \<longrightarrow>
              \<not> signaled (fences s ! f) \<and> \<not> signaled (fences s1 ! f)) \<and>
           (signaled (fences s ! f) \<longrightarrow> t = s) \<and>
           (\<not> signaled (fences s ! f) \<and> signaled (fences s1 ! f) \<longrightarrow>
              t = emit [Dev_warn_irq_latency] s1 \<and> resets t = resets s \<and>
              reset_pending (core t) = reset_pending (core s)) \<and>
           (\<not> signaled (fences s ! f) \<and> \<not> signaled (fences s1 ! f) \<longrightarrow>
              resets t = resets s + 1 \<and> \<not> reset_pending (core t) \<and>
              in_flight_job (core t) = None)"
proof -
  obtain s1 where s1: "synchronize_irq (handler_running_at_recheck env) s = Some s1"
    "state_wf s1"
    using synchronize_irq_wf[OF wf] by blast
  note fr = synchronize_irq_frame[OF s1(1)]
  from map_eq_nth[of done_fence "jobs s" "jobs s1" j] fr j df
  have j1: "j < length (jobs s1)" and d1: "done_fence (jobs s1 ! j) = Some f"
    by simp_all
  note sig0 = done_fence_signaled_wf[OF wf j df]
  note sig1 = done_fence_signaled_wf[OF s1(2) j1 d1]
  let ?s2 = "set_reset_pending True (emit [Dev_err_sched_timeout] s1)"
  have w2: "state_wf ?s2" using state_wf_emit[OF s1(2), of "[Dev_err_sched_timeout]"] by simp
  obtain u where u: "rocket_reset (handler_running_at_reset env) ?s2 (Some j) = Some u"
    "\<not> reset_pending (core u)" "in_flight_job (core u) = None" "resets u = resets ?s2 + 1"
    using rocket_reset_effect[OF w2, of "handler_running_at_reset env" "Some j"] by auto
  have run: "rocket_job_timedout env s j =
      Some (if signaled (fences s ! f) then s
            else if signaled (fences s1 ! f) then emit [Dev_warn_irq_latency] s1
            else emit [Iommu_detach_group] u)"
    by (simp add: rocket_job_timedout_def sig0 sig1 s1(1) u(1))
  let ?t = "if signaled (fences s ! f) then s
            else if signaled (fences s1 ! f) then emit [Dev_warn_irq_latency] s1
            else emit [Iommu_detach_group] u"
  have r2: "resets ?s2 = resets s" using fr by simp
  have c4: "resets s < resets ?t \<longrightarrow>
              \<not> signaled (fences s ! f) \<and> \<not> signaled (fences s1 ! f)"
    using fr by (auto split: if_splits)
  have c5: "signaled (fences s ! f) \<longrightarrow> ?t = s" by simp
  have c6: "\<not> signaled (fences s ! f) \<and> signaled (fences s1 ! f) \<longrightarrow>
              ?t = emit [Dev_warn_irq_latency] s1 \<and> resets ?t = resets s \<and>
              reset_pending (core ?t) = reset_pending (core s)"
    using fr by simp
  have c7: "\<not> signaled (fences s ! f) \<and> \<not> signaled (fences s1 ! f) \<longrightarrow>
              resets ?t = resets s + 1 \<and> \<not> reset_pending (core ?t) \<and>
              in_flight_job (core ?t) = None"
    using u(2,3,4) r2 by simp
  show ?thesis
    by (intro exI[of _ s1] exI[of _ ?t] conjI) (rule s1(1) run d1 c4 c5 c6 c7)+
qed

theorem timedout_reset_guard_witness:
  "state_wf (after (idle_state [new_job [task_a]]) [Run_job 0 ok_env]) \<and>
   done_fence (jobs (after (idle_state [new_job [task_a]]) [Run_job 0 ok_env]) ! 0) = Some 0 \<and>
   (\<exists>t. rocket_job_timedout quiet (after (idle_state [new_job [task_a]]) [Run_job 0 ok_env]) 0
           = Some t \<and> resets t = 1) \<and>
   (\<exists>t. rocket_job_timedout late_irq_at_recheck
           (after (idle_state [new_job [task_a]]) [Run_job 0 ok_env]) 0 = Some t \<and>
         resets t = 0 \<and> last (effects t) = Dev_warn_irq_latency) \<and>
   state_wf (after (idle_state [new_job [task_a]]) [Run_job 0 ok_env, Irq completion]) \<and>
   rocket_job_timedout quiet
     (after (idle_state [new_job [task_a]]) [Run_job 0 ok_env, Irq completion]) 0 =
   Some (after (idle_state [new_job [task_a]]) [Run_job 0 ok_env, Irq completion])"
proof -
  let ?a = "after (idle_state [new_job [task_a]]) [Run_job 0 ok_env]"
  let ?b = "after (idle_state [new_job [task_a]]) [Run_job 0 ok_env, Irq completion]"
  have wa: "state_wf ?a" and ja: "0 < length (jobs ?a)" and da: "done_fence (jobs ?a ! 0) = Some 0"
    and ua: "\<not> signaled (fences ?a ! 0)" and ra: "resets ?a = 0"
    by (simp_all add: after_def run_defs example_defs wf_defs hw_submit_writes_def resets_def)
  have wb: "state_wf ?b" and jb: "0 < length (jobs ?b)" and db: "done_fence (jobs ?b ! 0) = Some 0"
    and sb: "signaled (fences ?b ! 0)"
    by (simp_all add: after_def run_defs example_defs wf_defs hw_submit_writes_def irq_ack_def)
  have s1q: "synchronize_irq (handler_running_at_recheck quiet) ?a = Some (emit [Synchronize_irq] ?a)"
    by (simp add: synchronize_irq_def quiet_def)
  have s1l: "\<exists>s1. synchronize_irq (handler_running_at_recheck late_irq_at_recheck) ?a = Some s1 \<and>
      signaled (fences s1 ! 0)"
    by (simp add: after_def run_defs example_defs)
  from timedout_reset_guard[OF wa ja da, of quiet] s1q ua ra
  have 1: "\<exists>t. rocket_job_timedout quiet ?a 0 = Some t \<and> resets t = 1" by auto
  from timedout_reset_guard[OF wa ja da, of late_irq_at_recheck] s1l ua ra
  have 2: "\<exists>t. rocket_job_timedout late_irq_at_recheck ?a 0 = Some t \<and> resets t = 0 \<and>
             last (effects t) = Dev_warn_irq_latency" by auto
  from timedout_reset_guard[OF wb jb db, of quiet] sb
  have 3: "rocket_job_timedout quiet ?b 0 = Some ?b" by auto
  show ?thesis using wa da 1 2 wb 3 by blast
qed

text \<open>
  C8. When \<open>rocket_reset\<close> runs with a reset pending in a well-formed state, it returns;
  afterwards the reset-pending flag is clear and the in-flight slot is empty, the jobs the
  scheduler had pending have been handed back to it, and every job is as it was, its
  cursor included. A later \<open>run_job\<close> of a job whose cursor is below its task count (and
  whose scheduler fence carries no error, with the allocator, runtime PM and the IOMMU
  succeeding) starts the task at that cursor, not task zero, and advances the cursor by
  one; a \<open>run_job\<close> of a job whose cursor equals its task count returns NULL and changes
  nothing.
\<close>

theorem reset_recovery:
  assumes wf: "state_wf s" and p: "reset_pending (core s)"
  shows "\<exists>t. rocket_reset hr s bad = Some t \<and>
           \<not> reset_pending (core t) \<and> in_flight_job (core t) = None \<and>
           sched_resubmitted t = sched_pending s \<and> jobs t = jobs s \<and>
           (\<forall>j<length (jobs t).
              (next_task_idx (jobs t ! j) = task_count (jobs t ! j) \<longrightarrow>
                 (\<forall>env. rocket_job_run env t j = Some (Ret_NULL, t))) \<and>
              (next_task_idx (jobs t ! j) < task_count (jobs t ! j) \<and>
               finished_error (jobs t ! j) = 0 \<longrightarrow>
                 (\<forall>env. fence_alloc_ok env \<and> 0 \<le> pm_runtime_get_sync_ret env \<and>
                        0 \<le> iommu_attach_group_ret env \<longrightarrow>
                    (\<exists>g u. rocket_job_run env t j = Some (Ret_fence g, u) \<and>
                       in_flight_job (core u) = Some j \<and>
                       effects u = effects t @
                         [Pm_runtime_get_sync, Iommu_attach_group (domain (jobs s ! j))] @
                         hw_submit_writes (index (core t))
                           (tasks (jobs s ! j) ! unat (next_task_idx (jobs s ! j))) \<and>
                       next_task_idx (jobs u ! j) = next_task_idx (jobs s ! j) + 1 \<and>
                       dispatches u = dispatches t + 1))))"
proof -
  obtain t where t: "rocket_reset hr s bad = Some t" "state_wf t" "\<not> reset_pending (core t)"
    "in_flight_job (core t) = None" "jobs t = jobs s" "sched_resubmitted t = sched_pending s"
    using rocket_reset_effect[OF wf p, of hr bad] by auto
  have a: "rocket_job_run env t j = Some (Ret_NULL, t)"
    if "j < length (jobs t)" "next_task_idx (jobs t ! j) = task_count (jobs t ! j)" for j env
    using that by (rule rocket_job_run_nothing)
  have b: "\<exists>g u. rocket_job_run env t j = Some (Ret_fence g, u) \<and>
             in_flight_job (core u) = Some j \<and>
             effects u = effects t @
               [Pm_runtime_get_sync, Iommu_attach_group (domain (jobs s ! j))] @
               hw_submit_writes (index (core t))
                 (tasks (jobs s ! j) ! unat (next_task_idx (jobs s ! j))) \<and>
             next_task_idx (jobs u ! j) = next_task_idx (jobs s ! j) + 1 \<and>
             dispatches u = dispatches t + 1"
    if "j < length (jobs t)" "next_task_idx (jobs t ! j) < task_count (jobs t ! j)"
      "finished_error (jobs t ! j) = 0" "fence_alloc_ok env"
      "0 \<le> pm_runtime_get_sync_ret env" "0 \<le> iommu_attach_group_ret env" for j env
    using rocket_job_run_resume[OF t(2) that(1,2,3) t(3) that(4,5,6)] t(5) by auto
  show ?thesis
    using t a b by (intro exI[of _ t]) blast
qed

theorem reset_recovery_witness:
  "state_wf stalled_state \<and> reset_pending (core stalled_state) \<and>
   (\<exists>t. rocket_reset False stalled_state (Some 0) = Some t \<and>
      \<not> reset_pending (core t) \<and> in_flight_job (core t) = None \<and>
      sched_resubmitted t = [0] \<and> next_task_idx (jobs t ! 0) = 1 \<and>
      (\<exists>g u. rocket_job_run ok_env t 0 = Some (Ret_fence g, u) \<and>
         in_flight_job (core u) = Some 0 \<and>
         effects u = effects t @ [Pm_runtime_get_sync, Iommu_attach_group 0] @
                       hw_submit_writes 0 task_b \<and>
         next_task_idx (jobs u ! 0) = 2))"
proof -
  have p: "reset_pending (core stalled_state)" by (simp add: stalled_state_def)
  from reset_recovery[OF example_wf(3) p, of False "Some 0"]
  obtain t where t: "rocket_reset False stalled_state (Some 0) = Some t"
    "\<not> reset_pending (core t)" "in_flight_job (core t) = None"
    "sched_resubmitted t = sched_pending stalled_state" "jobs t = jobs stalled_state"
    and r: "\<forall>j<length (jobs t).
              (next_task_idx (jobs t ! j) = task_count (jobs t ! j) \<longrightarrow>
                 (\<forall>env. rocket_job_run env t j = Some (Ret_NULL, t))) \<and>
              (next_task_idx (jobs t ! j) < task_count (jobs t ! j) \<and>
               finished_error (jobs t ! j) = 0 \<longrightarrow>
                 (\<forall>env. fence_alloc_ok env \<and> 0 \<le> pm_runtime_get_sync_ret env \<and>
                        0 \<le> iommu_attach_group_ret env \<longrightarrow>
                    (\<exists>g u. rocket_job_run env t j = Some (Ret_fence g, u) \<and>
                       in_flight_job (core u) = Some j \<and>
                       effects u = effects t @
                         [Pm_runtime_get_sync,
                          Iommu_attach_group (domain (jobs stalled_state ! j))] @
                         hw_submit_writes (index (core t))
                           (tasks (jobs stalled_state ! j) !
                              unat (next_task_idx (jobs stalled_state ! j))) \<and>
                       next_task_idx (jobs u ! j) = next_task_idx (jobs stalled_state ! j) + 1 \<and>
                       dispatches u = dispatches t + 1)))"
    by blast
  have ix: "index (core t) = 0"
    using t(1) by (simp add: run_defs example_defs) auto
  have js: "jobs t = [(new_job [task_a, task_b])\<lparr>next_task_idx := 1, done_fence := Some 0\<rparr>]"
    using t(5) by (simp add: stalled_state_def)
  have "\<exists>g u. rocket_job_run ok_env t 0 = Some (Ret_fence g, u) \<and>
         in_flight_job (core u) = Some 0 \<and>
         effects u = effects t @ [Pm_runtime_get_sync, Iommu_attach_group 0] @
                       hw_submit_writes 0 task_b \<and>
         next_task_idx (jobs u ! 0) = 2"
    using r[rule_format, of 0, THEN conjunct2, rule_format, of ok_env] ix
    by (auto simp: js stalled_state_def new_job_def zero_job_def ok_env_def)
  then show ?thesis
    using example_wf(3) p t by (auto simp: js stalled_state_def)
qed

text \<open>
  C9. Take any well-formed state and any list of events (\<open>run_job\<close>, interrupts,
  \<open>timedout_job\<close>, the reset work item) that the scheduler and the interrupt line can
  deliver. The engine runs through all of them, and between any earlier point \<open>t\<close> of the
  run and any later point \<open>u\<close>: no job's cursor has moved back, every cursor is at most
  its job's task count, and the task counts are the same. A job whose cursor has reached
  its task count stays there; \<open>run_job\<close> on it returns NULL and changes nothing, and the
  completion handler starts no task when it is the job in flight. As many tasks have been
  started between \<open>t\<close> and \<open>u\<close> as the cursors have advanced in total, so every task that
  is started advances a cursor. While a reset is pending, \<open>rocket_job_hw_submit\<close> changes
  nothing, the cursor included.
\<close>

theorem cursor_invariant:
  assumes wf: "state_wf s" and ok: "events_ok s (es @ es')"
  shows "\<exists>t u. exec s es = Some t \<and> exec s (es @ es') = Some u \<and>
     state_wf t \<and> state_wf u \<and> length (jobs u) = length (jobs t) \<and>
     dispatches u + issued t = dispatches t + issued u \<and>
     (\<forall>j<length (jobs t).
        task_count (jobs u ! j) = task_count (jobs t ! j) \<and>
        next_task_idx (jobs t ! j) \<le> next_task_idx (jobs u ! j) \<and>
        next_task_idx (jobs u ! j) \<le> task_count (jobs u ! j) \<and>
        (next_task_idx (jobs t ! j) = task_count (jobs t ! j) \<longrightarrow>
           next_task_idx (jobs u ! j) = task_count (jobs u ! j) \<and>
           (\<forall>env. rocket_job_run env u j = Some (Ret_NULL, u)) \<and>
           (in_flight_job (core u) = Some j \<longrightarrow>
              (\<exists>v. rocket_job_handle_irq u = Some v \<and> dispatches v = dispatches u)))) \<and>
     (reset_pending (core u) \<longrightarrow> (\<forall>j. rocket_job_hw_submit u j = Some u))"
proof -
  from events_ok_append[OF ok] have ok1: "events_ok s es"
    and ok2: "\<And>t. exec s es = Some t \<Longrightarrow> events_ok t es'" by auto
  obtain t where t: "exec s es = Some t" "state_wf t"
    using exec_wf[OF wf ok1] by blast
  obtain u where u: "exec t es' = Some u" "state_wf u" "evolves t u"
    using exec_wf[OF t(2) ok2[OF t(1)]] by blast
  have eu: "exec s (es @ es') = Some u" using t(1) u(1) by (simp add: exec_append)
  have len: "length (jobs u) = length (jobs t)"
    and acc: "dispatches u + issued t = dispatches t + issued u"
    and prog: "\<And>j. j < length (jobs t) \<Longrightarrow> job_progress (jobs t ! j) (jobs u ! j)"
    using u(3) unfolding evolves_alt by simp_all
  have jw: "job_wf (fences u) (jobs u ! j)" if "j < length (jobs t)" for j
    using u(2) that len unfolding state_wf_alt by simp
  have per: "task_count (jobs u ! j) = task_count (jobs t ! j) \<and>
        next_task_idx (jobs t ! j) \<le> next_task_idx (jobs u ! j) \<and>
        next_task_idx (jobs u ! j) \<le> task_count (jobs u ! j) \<and>
        (next_task_idx (jobs t ! j) = task_count (jobs t ! j) \<longrightarrow>
           next_task_idx (jobs u ! j) = task_count (jobs u ! j) \<and>
           (\<forall>env. rocket_job_run env u j = Some (Ret_NULL, u)) \<and>
           (in_flight_job (core u) = Some j \<longrightarrow>
              (\<exists>v. rocket_job_handle_irq u = Some v \<and> dispatches v = dispatches u)))"
    if j: "j < length (jobs t)" for j
  proof -
    have a: "task_count (jobs u ! j) = task_count (jobs t ! j)"
      and b: "next_task_idx (jobs t ! j) \<le> next_task_idx (jobs u ! j)"
      using prog[OF j] by (simp_all add: job_progress_def)
    have c: "next_task_idx (jobs u ! j) \<le> task_count (jobs u ! j)"
      using jw[OF j] by (simp add: job_wf_def)
    have d: "next_task_idx (jobs u ! j) = task_count (jobs u ! j) \<and>
           (\<forall>env. rocket_job_run env u j = Some (Ret_NULL, u)) \<and>
           (in_flight_job (core u) = Some j \<longrightarrow>
              (\<exists>v. rocket_job_handle_irq u = Some v \<and> dispatches v = dispatches u))"
      if e: "next_task_idx (jobs t ! j) = task_count (jobs t ! j)"
    proof -
      have eq: "next_task_idx (jobs u ! j) = task_count (jobs u ! j)"
        using a b c e by simp
      have ju: "j < length (jobs u)" using j len by simp
      show ?thesis
        using eq rocket_job_run_nothing[OF ju eq] handle_irq_complete_no_dispatch[OF u(2) _ eq]
        by blast
    qed
    show ?thesis using a b c d by blast
  qed
  have pend: "reset_pending (core u) \<longrightarrow> (\<forall>j. rocket_job_hw_submit u j = Some u)"
    by (simp add: rocket_job_hw_submit_pending)
  show ?thesis
    using t eu u(2) len acc per pend by (intro exI[of _ t] exI[of _ u]) blast
qed


theorem cursor_invariant_witness:
  "state_wf (idle_state [new_job [task_a, task_b]]) \<and>
   events_ok (idle_state [new_job [task_a, task_b]])
     ([Run_job 0 ok_env, Irq completion] @ [Irq completion, Run_job 0 ok_env]) \<and>
   (\<exists>t u. exec (idle_state [new_job [task_a, task_b]]) [Run_job 0 ok_env, Irq completion]
             = Some t \<and>
      exec (idle_state [new_job [task_a, task_b]])
        ([Run_job 0 ok_env, Irq completion] @ [Irq completion, Run_job 0 ok_env]) = Some u \<and>
      next_task_idx (jobs t ! 0) = 2 \<and> next_task_idx (jobs u ! 0) = 2 \<and>
      task_count (jobs u ! 0) = 2 \<and> dispatches t = 2 \<and> dispatches u = 2 \<and>
      rocket_job_run ok_env u 0 = Some (Ret_NULL, u))"
proof -
  let ?s = "idle_state [new_job [task_a, task_b]]"
  let ?es = "[Run_job 0 ok_env, Irq completion]"
  let ?es' = "[Irq completion, Run_job 0 ok_env]"
  have ok: "events_ok ?s (?es @ ?es')"
    by (simp add: event_ok_def run_defs example_defs)
  have t: "exec ?s ?es = Some (after ?s ?es)"
    "next_task_idx (jobs (after ?s ?es) ! 0) = 2"
    "task_count (jobs (after ?s ?es) ! 0) = 2"
    "dispatches (after ?s ?es) = 2" "length (jobs (after ?s ?es)) = 1"
    "issued (after ?s ?es) = 2"
    by (simp_all add: after_def run_defs example_defs dispatches_def hw_submit_writes_def
          irq_ack_def issued_def)
  from cursor_invariant[OF example_wf(2) ok]
  obtain u where u: "exec ?s (?es @ ?es') = Some u"
    "dispatches u + issued (after ?s ?es) = dispatches (after ?s ?es) + issued u"
    and r: "\<forall>j<length (jobs (after ?s ?es)).
        task_count (jobs u ! j) = task_count (jobs (after ?s ?es) ! j) \<and>
        next_task_idx (jobs (after ?s ?es) ! j) \<le> next_task_idx (jobs u ! j) \<and>
        next_task_idx (jobs u ! j) \<le> task_count (jobs u ! j) \<and>
        (next_task_idx (jobs (after ?s ?es) ! j) = task_count (jobs (after ?s ?es) ! j) \<longrightarrow>
           next_task_idx (jobs u ! j) = task_count (jobs u ! j) \<and>
           (\<forall>env. rocket_job_run env u j = Some (Ret_NULL, u)) \<and>
           (in_flight_job (core u) = Some j \<longrightarrow>
              (\<exists>v. rocket_job_handle_irq u = Some v \<and> dispatches v = dispatches u)))"
      and lu: "length (jobs u) = length (jobs (after ?s ?es))"
    unfolding t(1) by auto
  from r[rule_format, of 0] t
  have c: "task_count (jobs u ! 0) = 2" "next_task_idx (jobs u ! 0) = 2"
    "rocket_job_run ok_env u 0 = Some (Ret_NULL, u)"
    by simp_all
  have eu: "exec ?s (?es @ ?es') = Some (after ?s (?es @ ?es'))"
    "dispatches (after ?s (?es @ ?es')) = 2"
    by (simp_all add: after_def run_defs example_defs dispatches_def hw_submit_writes_def
          irq_ack_def)
  have du: "dispatches u = 2" using u(1) eu by simp
  have "\<exists>t u. exec ?s ?es = Some t \<and> exec ?s (?es @ ?es') = Some u \<and>
      next_task_idx (jobs t ! 0) = 2 \<and> next_task_idx (jobs u ! 0) = 2 \<and>
      task_count (jobs u ! 0) = 2 \<and> dispatches t = 2 \<and> dispatches u = 2 \<and>
      rocket_job_run ok_env u 0 = Some (Ret_NULL, u)"
    apply (rule exI[of _ "after ?s ?es"])
    apply (rule exI[of _ u])
    apply (intro conjI)
    apply (rule t(1) u(1) t(2) c(2) c(1) t(4) du c(3))+
    done
  then show ?thesis using example_wf(2) ok by blast
qed

text \<open>
  What the engine guarantees about the signalling of fences. Along every run of the
  engine from a well-formed state: the signal
  function is called at most once on any fence, and a fence that is signaled stays
  signaled; a job's done-fence is signaled only when the job's cursor has reached its task
  count, that is, only after every task of the job has been issued to the hardware, and
  never while tasks remain undispatched; \<open>run_job\<close> signals no fence, and the completion
  handler signals none while the cursor of the job in flight is below the task count.
  A job with at least one task that is run from cursor 0 with no reset pending, every call
  succeeding and no timeout, has an unsignaled done-fence after fewer completion
  interrupts than it has tasks, and from then on a done-fence that has been signaled
  exactly once, with all its tasks started.
\<close>

theorem done_fence_signaled_once:
  assumes wf: "state_wf s"
  shows
    "(events_ok s es \<longrightarrow>
        (\<exists>t. exec s es = Some t \<and>
           (\<forall>f. signals t f \<le> 1) \<and>
           (\<forall>f<length (fences s). signaled (fences s ! f) \<longrightarrow> signaled (fences t ! f)) \<and>
           (\<forall>j<length (jobs t). \<forall>f. done_fence (jobs t ! j) = Some f \<longrightarrow>
              (signaled (fences t ! f) \<longleftrightarrow> signals t f = 1) \<and>
              (signaled (fences t ! f) \<longrightarrow>
                 next_task_idx (jobs t ! j) = task_count (jobs t ! j))))) \<and>
     (\<forall>j env r t f. rocket_job_run env s j = Some (r, t) \<longrightarrow> signals t f = signals s f) \<and>
     (\<forall>j f. in_flight_job (core s) = Some j \<and>
            next_task_idx (jobs s ! j) < task_count (jobs s ! j) \<longrightarrow>
            (\<exists>t. rocket_job_handle_irq s = Some t \<and> signals t f = signals s f)) \<and>
     (j < length (jobs s) \<and> next_task_idx (jobs s ! j) = 0 \<and> 0 < task_count (jobs s ! j) \<and>
      finished_error (jobs s ! j) = 0 \<and> \<not> reset_pending (core s) \<and>
      fence_alloc_ok env \<and> 0 \<le> pm_runtime_get_sync_ret env \<and>
      0 \<le> iommu_attach_group_ret env \<and> (dpu_0 raw \<or> dpu_1 raw) \<longrightarrow>
        (\<exists>t. exec s (Run_job j env # replicate k (Irq raw)) = Some t \<and>
           done_fence (jobs t ! j) = Some (length (fences s)) \<and>
           (if k < unat (task_count (jobs s ! j))
            then signals t (length (fences s)) = 0 \<and>
                 \<not> signaled (fences t ! length (fences s)) \<and>
                 unat (next_task_idx (jobs t ! j)) = k + 1 \<and>
                 dispatches t = dispatches s + k + 1
            else signals t (length (fences s)) = 1 \<and>
                 signaled (fences t ! length (fences s)) \<and>
                 next_task_idx (jobs t ! j) = task_count (jobs s ! j) \<and>
                 dispatches t = dispatches s + unat (task_count (jobs s ! j)))))"
proof (intro conjI impI allI)
  assume ok: "events_ok s es"
  obtain t where t: "exec s es = Some t" "state_wf t" "evolves s t"
    using exec_wf[OF wf ok] by blast
  have a: "\<forall>f. signals t f \<le> 1" using signals_le_1[OF t(2)] by blast
  have b: "\<forall>f<length (fences s). signaled (fences s ! f) \<longrightarrow> signaled (fences t ! f)"
    using t(3) unfolding evolves_alt fence_kept_def by blast
  have c: "(signaled (fences t ! f) \<longleftrightarrow> signals t f = 1) \<and>
           (signaled (fences t ! f) \<longrightarrow> next_task_idx (jobs t ! i) = task_count (jobs t ! i))"
    if "i < length (jobs t)" "done_fence (jobs t ! i) = Some f" for i f
  proof -
    have jw: "job_wf (fences t) (jobs t ! i)" using t(2) that(1) unfolding state_wf_alt by blast
    then have fl: "f < length (fences t)" using that(2) by (simp add: job_wf_def)
    show ?thesis
      using jw that(2) signals_iff_signaled[OF t(2) fl] by (auto simp: job_wf_def)
  qed
  show "\<exists>t. exec s es = Some t \<and>
           (\<forall>f. signals t f \<le> 1) \<and>
           (\<forall>f<length (fences s). signaled (fences s ! f) \<longrightarrow> signaled (fences t ! f)) \<and>
           (\<forall>j<length (jobs t). \<forall>f. done_fence (jobs t ! j) = Some f \<longrightarrow>
              (signaled (fences t ! f) \<longleftrightarrow> signals t f = 1) \<and>
              (signaled (fences t ! f) \<longrightarrow>
                 next_task_idx (jobs t ! j) = task_count (jobs t ! j)))"
    using t(1) a b c by (intro exI[of _ t]) blast
next
  fix i env r t f
  assume "rocket_job_run env s i = Some (r, t)"
  then show "signals t f = signals s f" by (rule rocket_job_run_signals)
next
  fix i f
  assume "in_flight_job (core s) = Some i \<and>
          next_task_idx (jobs s ! i) < task_count (jobs s ! i)"
  then show "\<exists>t. rocket_job_handle_irq s = Some t \<and> signals t f = signals s f"
    using handle_irq_no_signal[OF wf] by blast
next
  assume h: "j < length (jobs s) \<and> next_task_idx (jobs s ! j) = 0 \<and>
      0 < task_count (jobs s ! j) \<and> finished_error (jobs s ! j) = 0 \<and>
      \<not> reset_pending (core s) \<and> fence_alloc_ok env \<and> 0 \<le> pm_runtime_get_sync_ret env \<and>
      0 \<le> iommu_attach_group_ret env \<and> (dpu_0 raw \<or> dpu_1 raw)"
  from h nominal_run[OF wf, of j env raw k]
  obtain t where t: "exec s (Run_job j env # replicate k (Irq raw)) = Some t" "state_wf t"
    "done_fence (jobs t ! j) = Some (length (fences s))"
    "length (fences s) < length (fences t)"
    and r: "if k < unat (task_count (jobs s ! j))
            then \<not> signaled (fences t ! length (fences s)) \<and>
                 unat (next_task_idx (jobs t ! j)) = k + 1 \<and>
                 in_flight_job (core t) = Some j \<and>
                 dispatches t = dispatches s + k + 1
            else signaled (fences t ! length (fences s)) \<and>
                 next_task_idx (jobs t ! j) = task_count (jobs s ! j) \<and>
                 in_flight_job (core t) = None \<and>
                 dispatches t = dispatches s + unat (task_count (jobs s ! j))"
    by blast
  note sg = signals_iff_signaled[OF t(2) t(4)]
  show "\<exists>t. exec s (Run_job j env # replicate k (Irq raw)) = Some t \<and>
           done_fence (jobs t ! j) = Some (length (fences s)) \<and>
           (if k < unat (task_count (jobs s ! j))
            then signals t (length (fences s)) = 0 \<and>
                 \<not> signaled (fences t ! length (fences s)) \<and>
                 unat (next_task_idx (jobs t ! j)) = k + 1 \<and>
                 dispatches t = dispatches s + k + 1
            else signals t (length (fences s)) = 1 \<and>
                 signaled (fences t ! length (fences s)) \<and>
                 next_task_idx (jobs t ! j) = task_count (jobs s ! j) \<and>
                 dispatches t = dispatches s + unat (task_count (jobs s ! j)))"
    using t(1,3) r sg by (intro exI[of _ t]) (simp split: if_splits)
qed

theorem done_fence_signaled_once_witness:
  "state_wf (idle_state [new_job [task_a, task_b]]) \<and>
   events_ok (idle_state [new_job [task_a, task_b]])
     [Run_job 0 ok_env, Irq completion, Irq completion, Irq completion] \<and>
   (\<exists>t. exec (idle_state [new_job [task_a, task_b]])
           [Run_job 0 ok_env, Irq completion, Irq completion, Irq completion] = Some t \<and>
        signals t 0 \<le> 1 \<and> signaled (fences t ! 0) \<and> next_task_idx (jobs t ! 0) = 2) \<and>
   (\<exists>t. exec (idle_state [new_job [task_a, task_b]])
           (Run_job 0 ok_env # replicate 1 (Irq completion)) = Some t \<and>
        signals t 0 = 0 \<and> \<not> signaled (fences t ! 0) \<and> dispatches t = 2) \<and>
   (\<exists>t. exec (idle_state [new_job [task_a, task_b]])
           (Run_job 0 ok_env # replicate 2 (Irq completion)) = Some t \<and>
        signals t 0 = 1 \<and> signaled (fences t ! 0) \<and> dispatches t = 2)"
proof -
  let ?s = "idle_state [new_job [task_a, task_b]]"
  let ?es = "[Run_job 0 ok_env, Irq completion, Irq completion, Irq completion]"
  have ok: "events_ok ?s ?es"
    by (simp add: event_ok_def run_defs example_defs)
  have ev: "exec ?s ?es = Some (after ?s ?es)" "signaled (fences (after ?s ?es) ! 0)"
    "next_task_idx (jobs (after ?s ?es) ! 0) = 2"
    by (simp_all add: after_def run_defs example_defs)
  have h: "0 < length (jobs ?s) \<and> next_task_idx (jobs ?s ! 0) = 0 \<and>
      0 < task_count (jobs ?s ! 0) \<and> finished_error (jobs ?s ! 0) = 0 \<and>
      \<not> reset_pending (core ?s) \<and> fence_alloc_ok ok_env \<and>
      0 \<le> pm_runtime_get_sync_ret ok_env \<and> 0 \<le> iommu_attach_group_ret ok_env \<and>
      (dpu_0 completion \<or> dpu_1 completion)"
    and v: "unat (task_count (jobs ?s ! 0)) = 2" "length (fences ?s) = 0" "dispatches ?s = 0"
    by (simp_all add: example_defs dispatches_def)
  from done_fence_signaled_once[OF example_wf(2), of ?es 0 ok_env completion 1] ok ev(1)
  have 1: "signals (after ?s ?es) 0 \<le> 1" by auto
  from done_fence_signaled_once[OF example_wf(2), of ?es 0 ok_env completion 1] h
  have 2: "\<exists>t. exec ?s (Run_job 0 ok_env # replicate 1 (Irq completion)) = Some t \<and>
        signals t 0 = 0 \<and> \<not> signaled (fences t ! 0) \<and> dispatches t = 2"
    unfolding v by auto
  from done_fence_signaled_once[OF example_wf(2), of ?es 0 ok_env completion 2] h
  have 3: "\<exists>t. exec ?s (Run_job 0 ok_env # replicate 2 (Irq completion)) = Some t \<and>
        signals t 0 = 1 \<and> signaled (fences t ! 0) \<and> dispatches t = 2"
    unfolding v by auto
  show ?thesis
    using example_wf(2) ok ev 1 2 3 by blast
qed

text \<open>
  C1. The done-fence of a job is to be signaled only after every task of the job has been
  observed complete. The reset path breaks this. A job of one task is run and its task
  never completes: no interrupt arrives (the raw status has neither completion bit, for
  which the top half returns \<open>IRQ_NONE\<close>) and no handler is running when the timeout is
  handled. \<open>rocket_job_timedout\<close> finds the done-fence unsignaled at both checks and calls
  \<open>rocket_reset\<close>, which calls the bottom half all the same (line 387, "Handle the
  remaining interrupts before we reset"). The bottom half reads the two status registers
  and does not look at the values (lines 339-340); it finds the cursor at the task count,
  since the cursor counts the tasks issued, and signals the done-fence of the hung job.
\<close>

theorem reset_signals_done_fence_of_hung_job:
  "exec (idle_state [new_job [task_a]]) [Run_job 0 ok_env, Timedout 0 quiet] \<noteq> None \<and>
   task_count (jobs (idle_state [new_job [task_a]]) ! 0) = 1 \<and>
   completions_observed [Run_job 0 ok_env, Timedout 0 quiet] = 0 \<and>
   fst (rocket_job_irq_handler
          (after (idle_state [new_job [task_a]]) [Run_job 0 ok_env])
          \<lparr>dpu_0 = False, dpu_1 = False, dma_read_error = False\<rparr>) = IRQ_NONE \<and>
   done_fence (jobs (after (idle_state [new_job [task_a]])
                       [Run_job 0 ok_env, Timedout 0 quiet]) ! 0) = Some 0 \<and>
   signaled (fences (after (idle_state [new_job [task_a]])
                       [Run_job 0 ok_env, Timedout 0 quiet]) ! 0) \<and>
   signals (after (idle_state [new_job [task_a]]) [Run_job 0 ok_env, Timedout 0 quiet]) 0 = 1"
  by (simp add: after_def run_defs example_defs completions_observed_def completion_irqs_def
        signals_def hw_submit_writes_def irq_ack_def)

section \<open>Properties of the submission side\<close>

subsection \<open>Validation\<close>

lemma copy_tasks_loop_bad:
  assumes "\<exists>t\<in>set ts. task_regcmd_count t = 0 \<or> task_reserved t \<noteq> 0"
  shows "copy_tasks_loop ts = Inl EINVAL"
  using assms
proof (induction ts)
  case Nil
  then show ?case by simp
next
  case (Cons a ts)
  show ?case
  proof (cases "task_regcmd_count a = 0 \<or> task_reserved a \<noteq> 0")
    case True
    then show ?thesis by auto
  next
    case False
    with Cons.prems have "\<exists>t\<in>set ts. task_regcmd_count t = 0 \<or> task_reserved t \<noteq> 0"
      by auto
    from Cons.IH[OF this] False show ?thesis by simp
  qed
qed

lemma rocket_copy_tasks_bad:
  assumes "job_task_count job \<noteq> 0"
    and "copy_from_user (mem_tasks um (job_tasks job)) (unat (job_task_count job)) = Some ts"
    and "\<exists>t\<in>set ts. task_regcmd_count t = 0 \<or> task_reserved t \<noteq> 0"
  shows "\<exists>e. rocket_copy_tasks env um job rjob = Inl e \<and>
             (kvmalloc_tasks_ok env \<and> kvmalloc_job_tasks_ok env \<longrightarrow> e = EINVAL)"
  using assms copy_tasks_loop_bad[OF assms(3)]
  by (simp add: rocket_copy_tasks_def Let_def)

lemma submit_jobs_loop_append:
  assumes "\<forall>p\<in>set pre. job_reserved p = 0"
  shows "submit_jobs_loop envs um file i (pre @ rest) dev =
           (case submit_jobs_loop envs um file i pre dev of
              None \<Rightarrow> None
            | Some (r, dev1) \<Rightarrow> submit_jobs_loop envs um file (i + length pre) rest dev1)"
  using assms
  by (induction pre arbitrary: i dev) (auto split: option.splits)

lemmas submit_defs =
  rocket_ioctl_submit_def rocket_ioctl_submit_job_def rocket_copy_tasks_def
  rocket_job_push_def drm_gem_objects_lookup_def copy_from_user_def drm_sched_job_arm_def
  drm_sched_job_add_implicit_dependencies_def drm_sched_entity_push_job_def
  dma_resv_add_fence_def Let_def

lemmas submit_example_defs =
  no_failure_def empty_device_def two_handles_def good_job_def empty_job_def
  zero_count_job_def reserved_task_job_def example_mem_def submit_empty_job_def
  submit_zero_count_job_def job_r0_w1_def new_job_def zero_job_def
  task_a_def task_b_def

subsection \<open>What a successful push does\<close>

lemma rocket_attach_object_fences_eq:
  "rocket_attach_object_fences bs f rs b =
     (if b \<in> set bs then \<lparr>writer = Some f, readers = []\<rparr> else rs b)"
  by (induction bs arbitrary: rs) (auto simp: dma_resv_add_fence_def)

lemma rocket_acquire_object_fences_Inr:
  assumes "rocket_acquire_object_fences env rs bs job w = Inr job'"
  shows "job' = job\<lparr>dependencies :=
                    dependencies job @ concat (map (\<lambda>b. hazard_fences (rs b) w) bs)\<rparr>"
  using assms
proof (induction bs arbitrary: job)
  case Nil
  then show ?case by simp
next
  case (Cons b bs)
  from Cons.prems obtain job1 where
    j1: "drm_sched_job_add_implicit_dependencies (add_dependencies_ret env b) job (rs b) w
           = Inr job1"
    and rest: "rocket_acquire_object_fences env rs bs job1 w = Inr job'"
    by (auto split: option.splits sum.splits)
  from j1 have "job1 = job\<lparr>dependencies := dependencies job @ hazard_fences (rs b) w\<rparr>"
    by (auto simp: drm_sched_job_add_implicit_dependencies_def hazard_fences_def
          split: option.splits)
  with Cons.IH[OF rest] show ?case by simp
qed

lemma rocket_job_push_ok:
  assumes "rocket_job_push env dev job = Some (None, dev')"
  shows "entity_queue dev' = entity_queue dev @
           [job\<lparr>inference_done_fence := Some (fence_seq dev),
                dependencies := dependencies job @
                  concat (map (\<lambda>b. hazard_fences (resv dev b) False) (in_bos job)) @
                  concat (map (\<lambda>b. hazard_fences (resv dev b) True) (out_bos job))\<rparr>] \<and>
         resv dev' = rocket_attach_object_fences (out_bos job) (fence_seq dev) (resv dev) \<and>
         fence_seq dev' = fence_seq dev + 1"
proof -
  let ?job1 = "job\<lparr>inference_done_fence := Some (fence_seq dev)\<rparr>"
  let ?dev1 = "dev\<lparr>fence_seq := fence_seq dev + 1\<rparr>"
  from assms obtain job2 job3 where
    a: "rocket_acquire_object_fences env (resv ?dev1) (in_bos ?job1) ?job1 False = Inr job2"
    and b: "rocket_acquire_object_fences env (resv ?dev1) (out_bos job2) job2 True = Inr job3"
    and d: "dev' = (drm_sched_entity_push_job job3 ?dev1)
              \<lparr>resv := rocket_attach_object_fences (out_bos job3) (fence_seq dev)
                         (resv (drm_sched_entity_push_job job3 ?dev1))\<rparr>"
    by (auto simp: rocket_job_push_def drm_sched_job_arm_def Let_def
          split: if_splits option.splits sum.splits)
  note a' = rocket_acquire_object_fences_Inr[OF a]
  note b' = rocket_acquire_object_fences_Inr[OF b]
  show ?thesis
    unfolding d by (simp add: b' a' drm_sched_entity_push_job_def)
qed

lemma hazard_fences_writer: "writer r = Some f \<Longrightarrow> f \<in> set (hazard_fences r w)"
  by (simp add: hazard_fences_def)

lemma hazard_fences_readers: "set (readers r) \<subseteq> set (hazard_fences r True)"
  by (simp add: hazard_fences_def)

section \<open>The claims about the submission side\<close>

text \<open>
  C4. A job is rejected with \<open>EINVAL\<close>, and the device is left as it was (nothing is added
  to the entity's queue), when its task list is empty (\<open>rocket_ioctl_submit_job\<close>, line 612),
  when one of its tasks has a zero command count or a non-zero reserved field (the loop of
  \<open>rocket_copy_tasks\<close>), and when a reserved field of the submission or of the job
  descriptor is non-zero (\<open>rocket_ioctl_submit\<close>; the jobs before the offending descriptor
  have been handed on by then, the offending one and those after it have not). The checks
  on the tasks come after the two allocations and \<open>drm_sched_job_init\<close>: a failure there is
  reported with its own code, and the job is rejected all the same.
\<close>

theorem submit_rejects_malformed:
  "(job_task_count job = 0 \<longrightarrow>
      rocket_ioctl_submit_job env um fpriv dev job = Some (Some EINVAL, dev)) \<and>
   (job_task_count job \<noteq> 0 \<and>
    copy_from_user (mem_tasks um (job_tasks job)) (unat (job_task_count job)) = Some ts \<and>
    (\<exists>t\<in>set ts. task_regcmd_count t = 0 \<or> task_reserved t \<noteq> 0) \<longrightarrow>
      (\<exists>e. rocket_ioctl_submit_job env um fpriv dev job = Some (Some e, dev) \<and>
           (kzalloc_job_ok env \<and> drm_sched_job_init_ret env = None \<and>
            kvmalloc_tasks_ok env \<and> kvmalloc_job_tasks_ok env \<longrightarrow> e = EINVAL))) \<and>
   (submit_reserved args \<noteq> 0 \<longrightarrow>
      rocket_ioctl_submit jobs_ok envs um fpriv dev args = Some (Some EINVAL, dev)) \<and>
   (job_reserved job \<noteq> 0 \<longrightarrow>
      submit_jobs_loop envs um fpriv i (job # js) dev = Some (Some EINVAL, dev)) \<and>
   (submit_reserved args = 0 \<and> jobs_ok \<and>
    copy_from_user (mem_jobs um (submit_jobs args)) (unat (submit_job_count args))
      = Some (pre @ job # js) \<and>
    (\<forall>p\<in>set pre. job_reserved p = 0) \<and> job_reserved job \<noteq> 0 \<longrightarrow>
      rocket_ioctl_submit jobs_ok envs um fpriv dev args =
        (case submit_jobs_loop envs um fpriv 0 pre dev of
           None \<Rightarrow> None
         | Some (r, dev1) \<Rightarrow> Some (Some EINVAL, dev1)))"
proof (intro conjI impI)
  assume "job_task_count job = 0"
  then show "rocket_ioctl_submit_job env um fpriv dev job = Some (Some EINVAL, dev)"
    by (simp add: rocket_ioctl_submit_job_def)
next
  assume h: "job_task_count job \<noteq> 0 \<and>
    copy_from_user (mem_tasks um (job_tasks job)) (unat (job_task_count job)) = Some ts \<and>
    (\<exists>t\<in>set ts. task_regcmd_count t = 0 \<or> task_reserved t \<noteq> 0)"
  then obtain e where e: "rocket_copy_tasks env um job zero_job = Inl e"
    "kvmalloc_tasks_ok env \<and> kvmalloc_job_tasks_ok env \<longrightarrow> e = EINVAL"
    using rocket_copy_tasks_bad[of job um ts env zero_job] by blast
  show "\<exists>e. rocket_ioctl_submit_job env um fpriv dev job = Some (Some e, dev) \<and>
           (kzalloc_job_ok env \<and> drm_sched_job_init_ret env = None \<and>
            kvmalloc_tasks_ok env \<and> kvmalloc_job_tasks_ok env \<longrightarrow> e = EINVAL)"
    using h e by (cases "drm_sched_job_init_ret env")
      (auto simp: rocket_ioctl_submit_job_def)
next
  assume "submit_reserved args \<noteq> 0"
  then show "rocket_ioctl_submit jobs_ok envs um fpriv dev args = Some (Some EINVAL, dev)"
    by (simp add: rocket_ioctl_submit_def)
next
  assume "job_reserved job \<noteq> 0"
  then show "submit_jobs_loop envs um fpriv i (job # js) dev = Some (Some EINVAL, dev)"
    by simp
next
  assume h: "submit_reserved args = 0 \<and> jobs_ok \<and>
    copy_from_user (mem_jobs um (submit_jobs args)) (unat (submit_job_count args))
      = Some (pre @ job # js) \<and>
    (\<forall>p\<in>set pre. job_reserved p = 0) \<and> job_reserved job \<noteq> 0"
  then have "submit_jobs_loop envs um fpriv 0 (pre @ job # js) dev =
        (case submit_jobs_loop envs um fpriv 0 pre dev of
           None \<Rightarrow> None
         | Some (r, dev1) \<Rightarrow> Some (Some EINVAL, dev1))"
    using submit_jobs_loop_append[where pre=pre and i=0 and rest="job # js"]
    by (auto split: option.splits)
  then show "rocket_ioctl_submit jobs_ok envs um fpriv dev args =
        (case submit_jobs_loop envs um fpriv 0 pre dev of
           None \<Rightarrow> None
         | Some (r, dev1) \<Rightarrow> Some (Some EINVAL, dev1))"
    using h by (simp add: rocket_ioctl_submit_def)
qed

theorem submit_rejects_malformed_witness:
  "job_task_count empty_job = 0 \<and>
   rocket_ioctl_submit_job no_failure example_mem two_handles empty_device empty_job =
     Some (Some EINVAL, empty_device) \<and>
   job_task_count zero_count_job \<noteq> 0 \<and>
   rocket_ioctl_submit_job no_failure example_mem two_handles empty_device zero_count_job =
     Some (Some EINVAL, empty_device) \<and>
   rocket_ioctl_submit_job no_failure example_mem two_handles empty_device reserved_task_job =
     Some (Some EINVAL, empty_device) \<and>
   job_reserved (good_job\<lparr>job_reserved := 5\<rparr>) \<noteq> 0 \<and>
   submit_jobs_loop (\<lambda>i. no_failure) example_mem two_handles 0
     [good_job\<lparr>job_reserved := 5\<rparr>] empty_device = Some (Some EINVAL, empty_device) \<and>
   submit_reserved (submit_empty_job\<lparr>submit_reserved := 1\<rparr>) \<noteq> 0 \<and>
   rocket_ioctl_submit True (\<lambda>i. no_failure) example_mem two_handles empty_device
     (submit_empty_job\<lparr>submit_reserved := 1\<rparr>) = Some (Some EINVAL, empty_device)"
proof -
  have a: "job_task_count empty_job = 0" by (simp add: submit_example_defs)
  have b: "job_task_count zero_count_job \<noteq> 0 \<and>
    copy_from_user (mem_tasks example_mem (job_tasks zero_count_job))
      (unat (job_task_count zero_count_job)) =
      Some [\<lparr>task_regcmd = 0x1000, task_regcmd_count = 0, task_reserved = 0\<rparr>] \<and>
    (\<exists>t\<in>set [\<lparr>task_regcmd = 0x1000, task_regcmd_count = 0, task_reserved = 0\<rparr>].
        task_regcmd_count t = 0 \<or> task_reserved t \<noteq> 0)"
    by (simp add: submit_example_defs copy_from_user_def)
  have c: "job_task_count reserved_task_job \<noteq> 0 \<and>
    copy_from_user (mem_tasks example_mem (job_tasks reserved_task_job))
      (unat (job_task_count reserved_task_job)) =
      Some [\<lparr>task_regcmd = 0x1000, task_regcmd_count = 8, task_reserved = 1\<rparr>] \<and>
    (\<exists>t\<in>set [\<lparr>task_regcmd = 0x1000, task_regcmd_count = 8, task_reserved = 1\<rparr>].
        task_regcmd_count t = 0 \<or> task_reserved t \<noteq> 0)"
    by (simp add: submit_example_defs copy_from_user_def)
  have env: "kzalloc_job_ok no_failure \<and> drm_sched_job_init_ret no_failure = None \<and>
            kvmalloc_tasks_ok no_failure \<and> kvmalloc_job_tasks_ok no_failure"
    by (simp add: no_failure_def)
  have d: "job_reserved (good_job\<lparr>job_reserved := 5\<rparr>) \<noteq> 0"
    "submit_reserved (submit_empty_job\<lparr>submit_reserved := 1\<rparr>) \<noteq> 0"
    by simp_all
  note t1 = submit_rejects_malformed[where job=empty_job and env=no_failure
      and um=example_mem and fpriv=two_handles and dev=empty_device]
  note t2 = submit_rejects_malformed[where job=zero_count_job and env=no_failure
      and um=example_mem and fpriv=two_handles and dev=empty_device
      and ts="[\<lparr>task_regcmd = 0x1000, task_regcmd_count = 0, task_reserved = 0\<rparr>]"]
  note t3 = submit_rejects_malformed[where job=reserved_task_job and env=no_failure
      and um=example_mem and fpriv=two_handles and dev=empty_device
      and ts="[\<lparr>task_regcmd = 0x1000, task_regcmd_count = 8, task_reserved = 1\<rparr>]"]
  note t4 = submit_rejects_malformed[where job="good_job\<lparr>job_reserved := 5\<rparr>"
      and envs="\<lambda>i. no_failure" and um=example_mem and fpriv=two_handles and dev=empty_device
      and i=0 and js="[]" and args="submit_empty_job\<lparr>submit_reserved := 1\<rparr>"
      and jobs_ok=True]
  have 1: "rocket_ioctl_submit_job no_failure example_mem two_handles empty_device empty_job =
     Some (Some EINVAL, empty_device)"
    using t1 a by blast
  have 2: "rocket_ioctl_submit_job no_failure example_mem two_handles empty_device zero_count_job =
     Some (Some EINVAL, empty_device)"
    using t2 b env by blast
  have 3: "rocket_ioctl_submit_job no_failure example_mem two_handles empty_device reserved_task_job =
     Some (Some EINVAL, empty_device)"
    using t3 c env by blast
  have 4: "submit_jobs_loop (\<lambda>i. no_failure) example_mem two_handles 0
     [good_job\<lparr>job_reserved := 5\<rparr>] empty_device = Some (Some EINVAL, empty_device)"
    "rocket_ioctl_submit True (\<lambda>i. no_failure) example_mem two_handles empty_device
     (submit_empty_job\<lparr>submit_reserved := 1\<rparr>) = Some (Some EINVAL, empty_device)"
    using t4 d by blast+
  show ?thesis using a b 1 2 3 d 4 by blast
qed

text \<open>
  C5. The error that \<open>rocket_ioctl_submit_job\<close> detects is not returned by the submit entry
  point: the call of line 693 drops the returned value, and \<open>rocket_ioctl_submit\<close> returns
  the 0 that \<open>ret\<close> has held since its declaration. Evaluated on a submission of one job with
  an empty task list, and on one whose only task has a zero command count:
  \<open>rocket_ioctl_submit_job\<close> returns \<open>-EINVAL\<close> and \<open>rocket_ioctl_submit\<close> returns 0. The
  job is not queued in either case.
\<close>

theorem submit_returns_success_for_malformed_job:
  "rocket_ioctl_submit_job no_failure example_mem two_handles empty_device empty_job =
     Some (Some EINVAL, empty_device) \<and>
   rocket_ioctl_submit True (\<lambda>i. no_failure) example_mem two_handles empty_device
     submit_empty_job = Some (None, empty_device) \<and>
   rocket_ioctl_submit_job no_failure example_mem two_handles empty_device zero_count_job =
     Some (Some EINVAL, empty_device) \<and>
   rocket_ioctl_submit True (\<lambda>i. no_failure) example_mem two_handles empty_device
     submit_zero_count_job = Some (None, empty_device)"
  by (simp add: submit_defs submit_example_defs)

text \<open>
  C3. When a job is pushed, its new completion fence (the scheduler's finished fence, kept
  as \<open>inference_done_fence\<close>) becomes the writer fence of each buffer of the output set,
  with an empty reader set. The record of every other buffer is left as it was: that
  includes the buffers of the input set, since \<open>rocket_attach_object_fences\<close> is called
  for \<open>out_bos\<close> only (line 212).
\<close>

theorem push_publishes_writer_fence:
  assumes "rocket_job_push env dev job = Some (None, dev')"
  shows "(\<exists>q. entity_queue dev' = entity_queue dev @ [q] \<and>
              inference_done_fence q = Some (fence_seq dev)) \<and>
         (\<forall>b\<in>set (out_bos job).
            resv dev' b = \<lparr>writer = Some (fence_seq dev), readers = []\<rparr>) \<and>
         (\<forall>b. b \<notin> set (out_bos job) \<longrightarrow> resv dev' b = resv dev b)"
  using rocket_job_push_ok[OF assms]
  by (simp add: rocket_attach_object_fences_eq)

theorem push_publishes_writer_fence_witness:
  "\<exists>dev'. rocket_job_push no_failure empty_device job_r0_w1 = Some (None, dev') \<and>
      resv dev' 1 = \<lparr>writer = Some 10, readers = []\<rparr> \<and>
      resv dev' 0 = \<lparr>writer = None, readers = []\<rparr>"
proof -
  obtain dev' where p: "rocket_job_push no_failure empty_device job_r0_w1 = Some (None, dev')"
    by (simp add: submit_defs submit_example_defs)
  from push_publishes_writer_fence[OF p] p
  show ?thesis by (simp add: submit_example_defs)
qed

text \<open>The claim as stated has the fence added to the reader set of each buffer of the
  input set. A job that reads buffer 0 and writes buffer 1 is pushed on a device with no
  fences: afterwards the record of buffer 0 is unchanged and its reader set does not hold
  the job's fence.\<close>

theorem push_input_not_published_counterexample:
  "fst (the (rocket_job_push no_failure empty_device job_r0_w1)) = None \<and>
   rocket_job_push no_failure empty_device job_r0_w1 \<noteq> None \<and>
   0 \<in> set (in_bos job_r0_w1) \<and>
   inference_done_fence
     (last (entity_queue (snd (the (rocket_job_push no_failure empty_device job_r0_w1)))))
     = Some 10 \<and>
   10 \<notin> set (readers (resv (snd (the (rocket_job_push no_failure empty_device job_r0_w1))) 0)) \<and>
   resv (snd (the (rocket_job_push no_failure empty_device job_r0_w1))) 0 = resv empty_device 0"
  by (simp add: submit_defs submit_example_defs)

section \<open>Properties of scheduler and engine together\<close>

subsection \<open>The invariant of the queue\<close>

lemma queue_inv_seq_mono:
  assumes "queue_inv qs rs n F R" "n \<le> m"
  shows "queue_inv qs rs m F R"
  using assms unfolding queue_inv_def fence_inv_def
  by (meson less_le_trans)

lemma queue_inv_ran:
  assumes "queue_inv qs rs n F R" "j < length qs" "set (v_deps (qs ! j)) \<subseteq> F"
  shows "queue_inv qs rs n F (insert j R)"
  using assms unfolding queue_inv_def ran_inv_def by auto

lemma queue_inv_finish:
  assumes q: "queue_inv qs rs n F R" and j: "j \<in> R" and f: "v_fence (qs ! j) = Some f"
  shows "queue_inv qs rs n (insert f F) R"
proof -
  have jl: "j < length qs" using q j unfolding queue_inv_def ran_inv_def by blast
  have fn: "f < n" using q jl f unfolding queue_inv_def fence_inv_def by fastforce
  have dist: "k = j" if "k < length qs" "v_fence (qs ! k) = Some f" for k
  proof (rule ccontr)
    assume "k \<noteq> j"
    then consider "k < j" | "j < k" by linarith
    then show False
      using q jl that f unfolding queue_inv_def fence_inv_def by (cases; metis)
  qed
  have 1: "fence_inv qs n (insert f F)"
    using q fn unfolding queue_inv_def fence_inv_def by auto
  have 2: "ran_inv qs (insert f F) R"
    using q j dist unfolding queue_inv_def ran_inv_def by auto
  show ?thesis using q 1 2 unfolding queue_inv_def by blast
qed

lemma queue_inv_elsewhere:
  assumes q: "queue_inv qs rs n F R" and fn: "f < n"
    and nf: "\<forall>k<length qs. v_fence (qs ! k) \<noteq> Some f"
  shows "queue_inv qs rs n (insert f F) R"
proof -
  have 1: "fence_inv qs n (insert f F)"
    using q fn unfolding queue_inv_def fence_inv_def by auto
  have 2: "ran_inv qs (insert f F) R"
    using q nf unfolding queue_inv_def ran_inv_def by auto
  show ?thesis using q 1 2 unfolding queue_inv_def by blast
qed

lemma queue_inv_order:
  assumes q: "queue_inv qs rs n F R"
  shows "j \<in> R \<Longrightarrow> i < j \<Longrightarrow> b \<in> set (v_out (qs ! i)) \<Longrightarrow>
         b \<in> set (v_in (qs ! j)) \<union> set (v_out (qs ! j)) \<Longrightarrow>
         \<exists>f. v_fence (qs ! i) = Some f \<and> f \<in> F"
proof (induction j arbitrary: rule: less_induct)
  case (less j)
  have jl: "j < length qs" and dj: "set (v_deps (qs ! j)) \<subseteq> F"
    using q less.prems(1) unfolding queue_inv_def ran_inv_def by blast+
  from q jl less.prems obtain k f where
    k: "k < j" "i \<le> k" "b \<in> set (v_out (qs ! k))" "v_fence (qs ! k) = Some f"
       "f \<in> set (v_deps (qs ! j))"
    unfolding queue_inv_def deps_inv_def by blast
  have fF: "f \<in> F" using dj k(5) by blast
  have kR: "k \<in> R"
    using q k(1,4) jl fF unfolding queue_inv_def ran_inv_def by (meson less_trans)
  show ?case
  proof (cases "k = i")
    case True
    then show ?thesis using k(4) fF by blast
  next
    case False
    then have "i < k" using k(2) by simp
    from less.IH[OF k(1) kR this less.prems(3)] k(3) show ?thesis by blast
  qed
qed

lemma queue_inv_push:
  assumes q: "queue_inv qs rs n F R"
    and fx: "v_fence x = Some n"
    and din: "\<forall>b\<in>set (v_in x). set (hazard_fences (rs b) False) \<subseteq> set (v_deps x)"
    and dout: "\<forall>b\<in>set (v_out x). set (hazard_fences (rs b) True) \<subseteq> set (v_deps x)"
  shows "queue_inv (qs @ [x]) (rocket_attach_object_fences (v_out x) n rs) (Suc n) F R"
proof -
  let ?qs = "qs @ [x]"
  let ?rs = "rocket_attach_object_fences (v_out x) n rs"
  have fi: "fence_inv qs n F" and ri: "ran_inv qs F R" and wi: "writer_inv qs rs"
    and di: "deps_inv qs"
    using q unfolding queue_inv_def by blast+
  have old: "\<exists>f. v_fence (qs ! j) = Some f \<and> f < n" if "j < length qs" for j
    using fi that unfolding fence_inv_def by blast
  have 1: "fence_inv ?qs (Suc n) F"
    unfolding fence_inv_def
  proof (intro conjI allI impI ballI)
    fix j assume "j < length ?qs"
    then show "\<exists>f. v_fence (?qs ! j) = Some f \<and> f < Suc n"
      using old[of j] fx by (cases "j < length qs") (auto simp: nth_append less_Suc_eq)
  next
    fix j i assume j: "j < length ?qs" and i: "i < j"
    show "v_fence (?qs ! i) \<noteq> v_fence (?qs ! j)"
    proof (cases "j < length qs")
      case True
      then show ?thesis using fi i unfolding fence_inv_def by (simp add: nth_append)
    next
      case False
      then have "j = length qs" using j by simp
      then show ?thesis using old[of i] i fx by (auto simp: nth_append)
    qed
  next
    fix f assume "f \<in> F"
    then show "f < Suc n" using fi unfolding fence_inv_def by (simp add: less_Suc_eq)
  qed
  have 2: "ran_inv ?qs F R"
    unfolding ran_inv_def
  proof (intro conjI allI impI ballI)
    fix j assume "j \<in> R"
    then have "j < length qs" "set (v_deps (qs ! j)) \<subseteq> F"
      using ri unfolding ran_inv_def by blast+
    then show "j < length ?qs" "set (v_deps (?qs ! j)) \<subseteq> F" by (simp_all add: nth_append)
  next
    fix j f assume j: "j < length ?qs" and f: "f \<in> F" and e: "v_fence (?qs ! j) = Some f"
    show "j \<in> R"
    proof (cases "j < length qs")
      case True
      then show ?thesis using ri f e unfolding ran_inv_def by (simp add: nth_append)
    next
      case False
      then have "j = length qs" using j by simp
      then have "f = n" using e fx by simp
      then show ?thesis using fi f unfolding fence_inv_def by auto
    qed
  qed
  have 3: "writer_inv ?qs ?rs"
    unfolding writer_inv_def
  proof (intro allI impI ballI)
    fix i b assume i: "i < length ?qs" and b: "b \<in> set (v_out (?qs ! i))"
    show "\<exists>k<length ?qs. i \<le> k \<and> b \<in> set (v_out (?qs ! k)) \<and>
            writer (?rs b) = v_fence (?qs ! k)"
    proof (cases "b \<in> set (v_out x)")
      case True
      then show ?thesis
        using i fx by (intro exI[of _ "length qs"]) (simp add: rocket_attach_object_fences_eq)
    next
      case False
      then have il: "i < length qs" using i b by (cases "i < length qs") (auto simp: nth_append)
      then have "b \<in> set (v_out (qs ! i))" using b by (simp add: nth_append)
      with wi il obtain k where "k < length qs" "i \<le> k" "b \<in> set (v_out (qs ! k))"
        "writer (rs b) = v_fence (qs ! k)"
        unfolding writer_inv_def by blast
      then show ?thesis
        using False by (intro exI[of _ k]) (simp add: rocket_attach_object_fences_eq nth_append)
    qed
  qed
  have 4: "deps_inv ?qs"
    unfolding deps_inv_def
  proof (intro allI impI ballI)
    fix j i b assume j: "j < length ?qs" and i: "i < j"
      and b: "b \<in> set (v_out (?qs ! i))"
      and bj: "b \<in> set (v_in (?qs ! j)) \<union> set (v_out (?qs ! j))"
    show "\<exists>k<j. i \<le> k \<and> b \<in> set (v_out (?qs ! k)) \<and>
            (\<exists>f. v_fence (?qs ! k) = Some f \<and> f \<in> set (v_deps (?qs ! j)))"
    proof (cases "j < length qs")
      case True
      then have "b \<in> set (v_out (qs ! i))" "b \<in> set (v_in (qs ! j)) \<union> set (v_out (qs ! j))"
        using i b bj by (simp_all add: nth_append)
      with True i di have "\<exists>k<j. i \<le> k \<and> b \<in> set (v_out (qs ! k)) \<and>
            (\<exists>f. v_fence (qs ! k) = Some f \<and> f \<in> set (v_deps (qs ! j)))"
        unfolding deps_inv_def by blast
      then obtain k where "k < j" "i \<le> k" "b \<in> set (v_out (qs ! k))"
        "\<exists>f. v_fence (qs ! k) = Some f \<and> f \<in> set (v_deps (qs ! j))" by blast
      then show ?thesis using True by (intro exI[of _ k]) (simp add: nth_append)
    next
      case False
      then have jl: "j = length qs" using j by simp
      then have il: "i < length qs" using i by simp
      then have bi: "b \<in> set (v_out (qs ! i))" using b by (simp add: nth_append)
      with wi il obtain k where k: "k < length qs" "i \<le> k" "b \<in> set (v_out (qs ! k))"
        "writer (rs b) = v_fence (qs ! k)"
        unfolding writer_inv_def by blast
      from old[OF k(1)] obtain f where f: "v_fence (qs ! k) = Some f" by blast
      then have w: "writer (rs b) = Some f" using k(4) by simp
      have "f \<in> set (v_deps x)"
        using bj jl din dout w by (auto simp: hazard_fences_def)
      then show ?thesis using k f jl by (intro exI[of _ k]) (simp add: nth_append)
    qed
  qed
  show ?thesis using 1 2 3 4 unfolding queue_inv_def by blast
qed

subsection \<open>Steps of the engine are confined to the jobs that have been run\<close>

lemma confined_refl:
  "(\<forall>k. in_flight_job (core s) = Some k \<longrightarrow> k \<in> A) \<Longrightarrow> confined A s s"
  by (simp add: confined_def)

lemma confined_trans:
  "confined A s t \<Longrightarrow> confined A t u \<Longrightarrow> confined A s u"
  by (simp add: confined_def)

lemma confined_slot:
  "confined A s t \<Longrightarrow> in_flight_job (core t) = Some k \<Longrightarrow> k \<in> A"
  by (simp add: confined_def)

lemma confined_proj:
  assumes "jobs t' = jobs t" "in_flight_job (core t') = in_flight_job (core t)"
  shows "confined A s t' = confined A s t"
  using assms by (simp add: confined_def)

lemma confined_proj_left:
  assumes "jobs s' = jobs s"
  shows "confined A s' t = confined A s t"
  using assms by (simp add: confined_def)

lemma confined_clear:
  assumes "confined A s t" "jobs t' = jobs t" "in_flight_job (core t') = None"
  shows "confined A s t'"
  using assms by (simp add: confined_def)

lemma rocket_job_hw_submit_confined:
  assumes "rocket_job_hw_submit s j = Some t" "j \<in> A"
    and "\<forall>k. in_flight_job (core s) = Some k \<longrightarrow> k \<in> A"
  shows "confined A s t"
  using assms
  by (auto simp: rocket_job_hw_submit_def job_at_def Let_def confined_def static_def
        nth_list_update split: if_splits option.splits)

lemma rocket_job_handle_done_confined:
  assumes "rocket_job_handle_done s j = Some t" "j \<in> A"
    and sl: "\<forall>k. in_flight_job (core s) = Some k \<longrightarrow> k \<in> A"
  shows "confined A s t"
proof (cases "next_task_idx (jobs s ! j) < task_count (jobs s ! j)")
  case True
  then have "rocket_job_hw_submit s j = Some t"
    using assms by (auto simp: rocket_job_handle_done_def job_at_def split: option.splits if_splits)
  from rocket_job_hw_submit_confined[OF this assms(2) sl] show ?thesis .
next
  case False
  then obtain f u where
    u: "dma_fence_signal_locked f (emit [Iommu_detach_group] (set_in_flight None s)) = Some u"
    and t: "t = emit [Pm_runtime_put_autosuspend] u"
    using assms by (auto simp: rocket_job_handle_done_def job_at_def split: option.splits if_splits)
  from dma_fence_signal_locked_frame[OF u] show ?thesis
    by (simp add: t confined_def)
qed

lemma rocket_job_handle_irq_confined:
  assumes "rocket_job_handle_irq s = Some t"
    and sl: "\<forall>k. in_flight_job (core s) = Some k \<longrightarrow> k \<in> A"
  shows "confined A s t"
proof (cases "in_flight_job (core s)")
  case None
  then show ?thesis using assms by (auto simp: rocket_job_handle_irq_def Let_def confined_def)
next
  case (Some j)
  then have d: "rocket_job_handle_done (emit irq_ack s) j = Some t"
    using assms by (simp add: rocket_job_handle_irq_def Let_def)
  have "confined A (emit irq_ack s) t"
    by (rule rocket_job_handle_done_confined[OF d]) (use Some sl in auto)
  then show ?thesis by (simp add: confined_def)
qed

lemma synchronize_irq_confined:
  assumes "synchronize_irq hr s = Some t"
    and sl: "\<forall>k. in_flight_job (core s) = Some k \<longrightarrow> k \<in> A"
  shows "confined A s t"
proof (cases hr)
  case True
  then have h: "rocket_job_handle_irq (emit [Synchronize_irq] s) = Some t"
    using assms by (simp add: synchronize_irq_def)
  have "confined A (emit [Synchronize_irq] s) t"
    by (rule rocket_job_handle_irq_confined[OF h]) (use sl in auto)
  then show ?thesis by (simp add: confined_def)
next
  case False
  then show ?thesis using assms by (auto simp: synchronize_irq_def confined_def)
qed

lemma rocket_reset_confined:
  assumes r: "rocket_reset hr s bad = Some t"
    and sl: "\<forall>k. in_flight_job (core s) = Some k \<longrightarrow> k \<in> A"
  shows "confined A s t"
proof (cases "reset_pending (core s)")
  case False
  then show ?thesis using r sl by (simp add: rocket_reset_def confined_def)
next
  case True
  let ?s3 = "emit [Writel PC_INTERRUPT_MASK (Val 0x0)]
               ((case bad of None \<Rightarrow> (\<lambda>u. u) | Some b \<Rightarrow> drm_sched_increase_karma b)
                  (drm_sched_stop bad s))"
  have p3: "jobs ?s3 = jobs s" "core ?s3 = core s"
    by (cases bad; simp)+
  from r obtain s4 s5 where
    s4: "synchronize_irq hr ?s3 = Some s4"
    and s5: "rocket_job_handle_irq s4 = Some s5"
    and t: "t = drm_sched_start (drm_sched_resubmit_jobs
                 (set_reset_pending False
                   (emit [Pm_runtime_force_suspend, Pm_runtime_force_resume]
                     (set_in_flight None
                       (if in_flight_job (core s5) \<noteq> None
                        then emit [Pm_runtime_put_noidle] s5 else s5)))))"
    unfolding rocket_reset_unfold[OF True] by (auto split: option.splits)
  have c4: "confined A ?s3 s4"
    by (rule synchronize_irq_confined[OF s4]) (use sl p3 in auto)
  have c5: "confined A s4 s5"
    by (rule rocket_job_handle_irq_confined[OF s5]) (use c4 in \<open>auto simp: confined_def\<close>)
  have c: "confined A s s5"
    using confined_trans[OF c4 c5] p3 by (simp add: confined_def)
  show ?thesis
    by (rule confined_clear[OF c]) (simp_all add: t)
qed

lemma rocket_job_timedout_confined:
  assumes r: "rocket_job_timedout env s j = Some t"
    and sl: "\<forall>k. in_flight_job (core s) = Some k \<longrightarrow> k \<in> A"
  shows "confined A s t"
proof -
  from r obtain sig0 where s0: "done_fence_signaled s j = Some sig0"
    by (auto simp: rocket_job_timedout_def split: option.splits)
  show ?thesis
  proof (cases sig0)
    case True
    then show ?thesis using r s0 sl by (simp add: rocket_job_timedout_def confined_refl)
  next
    case False
    from r s0 False obtain s1 sig1 where
      s1: "synchronize_irq (handler_running_at_recheck env) s = Some s1"
      and g1: "done_fence_signaled s1 j = Some sig1"
      by (auto simp: rocket_job_timedout_def split: option.splits)
    have c1: "confined A s s1" by (rule synchronize_irq_confined[OF s1 sl])
    show ?thesis
    proof (cases sig1)
      case True
      then have "t = emit [Dev_warn_irq_latency] s1"
        using r s0 False s1 g1 by (simp add: rocket_job_timedout_def)
      then show ?thesis using c1 by (simp add: confined_def)
    next
      case F2: False
      from r s0 False s1 g1 F2 obtain u where
        u: "rocket_reset (handler_running_at_reset env)
              (set_reset_pending True (emit [Dev_err_sched_timeout] s1)) (Some j) = Some u"
        and t: "t = emit [Iommu_detach_group] u"
        by (auto simp: rocket_job_timedout_def)
      have "confined A (set_reset_pending True (emit [Dev_err_sched_timeout] s1)) u"
        by (rule rocket_reset_confined[OF u]) (use c1 in \<open>auto simp: confined_def\<close>)
      then have "confined A s1 u" by (simp add: confined_def)
      from confined_trans[OF c1 this] show ?thesis by (simp add: t confined_def)
    qed
  qed
qed

lemma irq_line_confined:
  assumes r: "irq_line s raw = Some t"
    and sl: "\<forall>k. in_flight_job (core s) = Some k \<longrightarrow> k \<in> A"
  shows "confined A s t"
proof (cases "dpu_0 raw \<or> dpu_1 raw")
  case False
  then show ?thesis
    using r sl by (auto simp: irq_line_def rocket_job_irq_handler_def Let_def confined_def)
next
  case True
  let ?s1 = "emit [Writel PC_INTERRUPT_MASK (Val 0x0)]
               (emit (Readl PC_INTERRUPT_RAW_STATUS #
                     (if dma_read_error raw
                      then [Warn_on_dma_read_error, Warn_on_dma_read_error] else [])) s)"
  from r True have h: "rocket_job_handle_irq ?s1 = Some t"
    by (auto simp: irq_line_def rocket_job_irq_handler_def Let_def
          rocket_job_irq_handler_thread_def)
  have "confined A ?s1 t"
    by (rule rocket_job_handle_irq_confined[OF h]) (use sl in auto)
  then show ?thesis by (simp add: confined_def)
qed

lemma rocket_job_run_confined:
  assumes r: "rocket_job_run env s j = Some (res, t)" and jA: "j \<in> A"
    and sl: "\<forall>k. in_flight_job (core s) = Some k \<longrightarrow> k \<in> A"
  shows "confined A s t"
proof -
  from r obtain job where job: "job_at s j = Some job"
    by (auto simp: rocket_job_run_def split: option.splits)
  show ?thesis
  proof (cases "finished_error job \<noteq> 0 \<or> next_task_idx job = task_count job")
    case True
    then have "t = s" using r job by (auto simp: rocket_job_run_def split: if_splits)
    then show ?thesis using sl by (simp add: confined_refl)
  next
    case False
    show ?thesis
    proof (cases "fence_alloc_ok env")
      case F: False
      then have "t = s" using r job False
        by (auto simp: rocket_job_run_def rocket_fence_create_fail)
      then show ?thesis using sl by (simp add: confined_refl)
    next
      case True
      let ?s1 = "s\<lparr>core := (core s)\<lparr>emit_seqno := emit_seqno (core s) + 1\<rparr>,
        fences := fences s @ [\<lparr>seqno = emit_seqno (core s) + 1, signaled = False\<rparr>]\<rparr>"
      let ?s2 = "job_upd j (\<lambda>jb. jb\<lparr>done_fence := Some (length (fences s))\<rparr>) ?s1"
      have jl: "j < length (jobs s)"
        using job by (simp add: job_at_def split: if_splits)
      have c2: "confined A s ?s2"
        using jA sl jl by (auto simp: confined_def static_def nth_list_update)
      show ?thesis
      proof (cases "pm_runtime_get_sync_ret env < 0 \<or> iommu_attach_group_ret env < 0")
        case T2: True
        then have "jobs t = jobs ?s2 \<and> core t = core ?s2"
          using r job False True
          by (auto simp: rocket_job_run_def rocket_fence_create_ok Let_def split: if_splits)
        then show ?thesis using c2 by (simp add: confined_def)
      next
        case F2: False
        let ?s4 = "emit [Iommu_attach_group (domain job)] (emit [Pm_runtime_get_sync] ?s2)"
        from r job False True F2 have h: "rocket_job_hw_submit (set_in_flight (Some j) ?s4) j = Some t"
          by (auto simp: rocket_job_run_def rocket_fence_create_ok Let_def split: option.splits)
        have "confined A (set_in_flight (Some j) ?s4) t"
          by (rule rocket_job_hw_submit_confined[OF h jA]) (use jA in simp)
        then have "confined A ?s2 t" by (simp add: confined_def)
        from confined_trans[OF c2 this] show ?thesis .
      qed
    qed
  qed
qed

lemma step_confined:
  assumes "step s e = Some t" "\<forall>j env. e \<noteq> Run_job j env"
  shows "confined {k. in_flight_job (core s) = Some k} s t"
  using assms
  by (cases e)
     (auto simp: step_def rocket_reset_work_def
        intro: irq_line_confined rocket_job_timedout_confined rocket_reset_confined)

subsection \<open>Every step keeps the invariant\<close>

lemma confined_static:
  assumes "confined A s t"
  shows "map static (jobs t) = map static (jobs s)"
  using assms by (intro nth_equalityI) (simp_all add: confined_def)

lemma sys_inv_engine:
  assumes inv: "sys_inv s" and c: "confined A (npu s) n1" and A: "A \<subseteq> set (sched_ran s)"
  shows "sys_inv (s\<lparr>npu := n1\<rparr>)"
proof -
  have q: "queue_inv (map static (jobs n1)) (sys_resv s) (sys_fence_seq s)
             (set (finished s)) (set (sched_ran s))"
    using inv confined_static[OF c] by (simp add: sys_inv_def)
  have ti: "touched_inv s" using inv by (simp add: sys_inv_def)
  have len: "length (jobs n1) = length (jobs (npu s))" using c by (simp add: confined_def)
  have t: "touched_inv (s\<lparr>npu := n1\<rparr>)"
    unfolding touched_inv_def
  proof (intro conjI allI impI)
    fix j assume j: "j < length (jobs (npu (s\<lparr>npu := n1\<rparr>)))"
      and h: "next_task_idx (jobs (npu (s\<lparr>npu := n1\<rparr>)) ! j) \<noteq> 0 \<or>
              done_fence (jobs (npu (s\<lparr>npu := n1\<rparr>)) ! j) \<noteq> None"
    show "j \<in> set (sched_ran (s\<lparr>npu := n1\<rparr>))"
    proof (cases "j \<in> A")
      case True
      then show ?thesis using A by auto
    next
      case False
      then have "jobs n1 ! j = jobs (npu s) ! j" using c j len by (simp add: confined_def)
      then show ?thesis using ti h j len by (simp add: touched_inv_def)
    qed
  next
    fix j assume "in_flight_job (core (npu (s\<lparr>npu := n1\<rparr>))) = Some j"
    then have "j \<in> A" using c by (simp add: confined_def)
    then show "j \<in> set (sched_ran (s\<lparr>npu := n1\<rparr>))" using A by auto
  qed
  show ?thesis using q t by (simp add: sys_inv_def)
qed

lemma rocket_copy_tasks_Inr:
  assumes "rocket_copy_tasks env um ujob zero_job = Inr rjob"
  shows "next_task_idx rjob = 0 \<and> done_fence rjob = None \<and> dependencies rjob = []"
  using assms
  by (auto simp: rocket_copy_tasks_def Let_def zero_job_def
        split: if_splits option.splits sum.splits)

lemma rocket_job_push_err:
  assumes "rocket_job_push env dev job = Some (Some e, dev')"
  shows "entity_queue dev' = entity_queue dev \<and> resv dev' = resv dev \<and>
         fence_seq dev \<le> fence_seq dev'"
  using assms
  by (auto simp: rocket_job_push_def drm_sched_job_arm_def Let_def
        split: if_splits option.splits sum.splits)

lemma rocket_ioctl_submit_job_cases:
  assumes "rocket_ioctl_submit_job env um file dev ujob = Some (r, dev')"
  shows "(r \<noteq> None \<and> entity_queue dev' = entity_queue dev \<and> resv dev' = resv dev \<and>
          fence_seq dev \<le> fence_seq dev') \<or>
         (r = None \<and>
          (\<exists>job. next_task_idx job = 0 \<and> done_fence job = None \<and> dependencies job = [] \<and>
                 rocket_job_push env dev job = Some (None, dev')))"
proof (cases r)
  case None
  with assms obtain rjob1 ins outs where
    c: "rocket_copy_tasks env um ujob zero_job = Inr rjob1"
    and p: "rocket_job_push env dev
              (rjob1\<lparr>in_bos := ins, out_bos := outs, domain := file_domain file\<rparr>)
            = Some (None, dev')"
    by (auto simp: rocket_ioctl_submit_job_def split: if_splits option.splits sum.splits)
  from rocket_copy_tasks_Inr[OF c] p None show ?thesis
    by (intro disjI2 conjI exI[of _ "rjob1\<lparr>in_bos := ins, out_bos := outs,
          domain := file_domain file\<rparr>"]) simp_all
next
  case (Some e)
  have "entity_queue dev' = entity_queue dev \<and> resv dev' = resv dev \<and>
        fence_seq dev \<le> fence_seq dev'"
    using assms Some rocket_job_push_err
    by (auto simp: rocket_ioctl_submit_job_def split: if_splits option.splits sum.splits)
  then show ?thesis using Some by simp
qed

lemma sys_submit_job_inv:
  assumes inv: "sys_inv s" and st: "sys_submit_job env um file ujob s = Some t"
  shows "sys_inv t"
proof -
  from st obtain r dev' where
    io: "rocket_ioctl_submit_job env um file (device_of s) ujob = Some (r, dev')"
    and t: "t = with_device dev' s"
    by (auto simp: sys_submit_job_def)
  have q: "queue_inv (map static (jobs (npu s))) (sys_resv s) (sys_fence_seq s)
             (set (finished s)) (set (sched_ran s))"
    and ti: "touched_inv s" using inv by (simp_all add: sys_inv_def)
  from rocket_ioctl_submit_job_cases[OF io] show ?thesis
  proof
    assume "r \<noteq> None \<and> entity_queue dev' = entity_queue (device_of s) \<and>
      resv dev' = resv (device_of s) \<and> fence_seq (device_of s) \<le> fence_seq dev'"
    then have e: "jobs (npu t) = jobs (npu s)" "sys_resv t = sys_resv s"
      "sys_fence_seq s \<le> sys_fence_seq t" "finished t = finished s" "sched_ran t = sched_ran s"
      "core (npu t) = core (npu s)"
      by (simp_all add: t with_device_def device_of_def)
    have "touched_inv t" using ti e by (simp add: touched_inv_def)
    then show ?thesis using queue_inv_seq_mono[OF q e(3)] e by (simp add: sys_inv_def)
  next
    assume "r = None \<and>
          (\<exists>job. next_task_idx job = 0 \<and> done_fence job = None \<and> dependencies job = [] \<and>
                 rocket_job_push env (device_of s) job = Some (None, dev'))"
    then obtain job where job: "next_task_idx job = 0" "done_fence job = None"
      and p: "rocket_job_push env (device_of s) job = Some (None, dev')" by blast
    let ?q = "job\<lparr>inference_done_fence := Some (sys_fence_seq s),
                dependencies := dependencies job @
                  concat (map (\<lambda>b. hazard_fences (sys_resv s b) False) (in_bos job)) @
                  concat (map (\<lambda>b. hazard_fences (sys_resv s b) True) (out_bos job))\<rparr>"
    from rocket_job_push_ok[OF p] have e:
      "jobs (npu t) = jobs (npu s) @ [?q]"
      "sys_resv t = rocket_attach_object_fences (out_bos job) (sys_fence_seq s) (sys_resv s)"
      "sys_fence_seq t = Suc (sys_fence_seq s)" "finished t = finished s"
      "sched_ran t = sched_ran s" "core (npu t) = core (npu s)"
      by (simp_all add: t with_device_def device_of_def)
    have "queue_inv (map static (jobs (npu s)) @ [static ?q])
            (rocket_attach_object_fences (v_out (static ?q)) (sys_fence_seq s) (sys_resv s))
            (Suc (sys_fence_seq s)) (set (finished s)) (set (sched_ran s))"
      by (rule queue_inv_push[OF q]) (auto simp: static_def)
    then have 1: "queue_inv (map static (jobs (npu t))) (sys_resv t) (sys_fence_seq t)
             (set (finished t)) (set (sched_ran t))"
      using e by (simp add: static_def)
    have r: "\<forall>j\<in>set (sched_ran s). j < length (jobs (npu s))"
      using q unfolding queue_inv_def ran_inv_def by simp
    have 2: "touched_inv t"
      unfolding touched_inv_def
    proof (intro conjI allI impI)
      fix j assume j: "j < length (jobs (npu t))"
        and h: "next_task_idx (jobs (npu t) ! j) \<noteq> 0 \<or> done_fence (jobs (npu t) ! j) \<noteq> None"
      show "j \<in> set (sched_ran t)"
      proof (cases "j < length (jobs (npu s))")
        case True
        then show ?thesis using ti h e by (simp add: touched_inv_def nth_append)
      next
        case False
        then have "j = length (jobs (npu s))" using j e by simp
        then show ?thesis using h e job by simp
      qed
    next
      fix j assume "in_flight_job (core (npu t)) = Some j"
      then show "j \<in> set (sched_ran t)" using ti e by (simp add: touched_inv_def)
    qed
    show ?thesis using 1 2 by (simp add: sys_inv_def)
  qed
qed

lemma sys_inv_ran:
  assumes inv: "sys_inv s" and j: "j < length (jobs (npu s))"
    and d: "set (dependencies (jobs (npu s) ! j)) \<subseteq> set (finished s)"
  shows "sys_inv (s\<lparr>sched_ran := j # sched_ran s\<rparr>)"
proof -
  have q: "queue_inv (map static (jobs (npu s))) (sys_resv s) (sys_fence_seq s)
             (set (finished s)) (set (sched_ran s))"
    and ti: "touched_inv s" using inv by (simp_all add: sys_inv_def)
  have "queue_inv (map static (jobs (npu s))) (sys_resv s) (sys_fence_seq s)
             (set (finished s)) (insert j (set (sched_ran s)))"
    by (rule queue_inv_ran[OF q]) (use j d in \<open>simp_all add: static_def\<close>)
  moreover have "touched_inv (s\<lparr>sched_ran := j # sched_ran s\<rparr>)"
    using ti by (simp add: touched_inv_def)
  ultimately show ?thesis by (simp add: sys_inv_def)
qed

lemma sys_inv_finish:
  assumes inv: "sys_inv s" and j: "j < length (jobs (npu s))" and r: "j \<in> set (sched_ran s)"
  shows "sys_inv (s\<lparr>finished := finished s @ finished_fence (jobs (npu s) ! j)\<rparr>)"
proof -
  have q: "queue_inv (map static (jobs (npu s))) (sys_resv s) (sys_fence_seq s)
             (set (finished s)) (set (sched_ran s))"
    and ti: "touched_inv s" using inv by (simp_all add: sys_inv_def)
  from q j obtain f where f: "inference_done_fence (jobs (npu s) ! j) = Some f"
    unfolding queue_inv_def fence_inv_def by (auto simp: static_def)
  have "queue_inv (map static (jobs (npu s))) (sys_resv s) (sys_fence_seq s)
             (insert f (set (finished s))) (set (sched_ran s))"
    by (rule queue_inv_finish[OF q r]) (use j f in \<open>simp add: static_def\<close>)
  moreover have "touched_inv (s\<lparr>finished := finished s @ [f]\<rparr>)"
    using ti by (simp add: touched_inv_def)
  ultimately show ?thesis using f by (simp add: sys_inv_def finished_fence_def)
qed

lemma drm_sched_run_job_inv:
  assumes inv: "sys_inv s" and st: "drm_sched_run_job env s j = Some t"
  shows "sys_inv t"
proof -
  from st obtain job where job: "job_at (npu s) j = Some job"
    by (auto simp: drm_sched_run_job_def split: option.splits)
  then have jl: "j < length (jobs (npu s))" and je: "job = jobs (npu s) ! j"
    by (auto simp: job_at_def split: if_splits)
  show ?thesis
  proof (cases "dependencies_signaled (\<lambda>f. f \<in> set (finished s)) job")
    case False
    then have "t = s" using st job by (simp add: drm_sched_run_job_def)
    then show ?thesis using inv by simp
  next
    case True
    then have d: "set (dependencies (jobs (npu s) ! j)) \<subseteq> set (finished s)"
      using je by (auto simp: dependencies_signaled_def list_all_iff)
    from st job True obtain r n1 where
      run: "rocket_job_run env (npu s) j = Some (r, n1)"
      by (auto simp: drm_sched_run_job_def split: option.splits)
    let ?s0 = "s\<lparr>sched_ran := j # sched_ran s\<rparr>"
    let ?s1 = "?s0\<lparr>npu := n1\<rparr>"
    have i0: "sys_inv ?s0" by (rule sys_inv_ran[OF inv jl d])
    have ti: "touched_inv s" using inv by (simp add: sys_inv_def)
    have c: "confined (set (sched_ran ?s0)) (npu ?s0) n1"
      using rocket_job_run_confined[OF run, of "set (j # sched_ran s)"] ti
      by (simp add: touched_inv_def)
    have i1: "sys_inv ?s1" by (rule sys_inv_engine[OF i0 c]) simp
    have s1: "?s1 = s\<lparr>npu := n1, sched_ran := j # sched_ran s\<rparr>" by simp
    have jl1: "j < length (jobs (npu ?s1))" using c jl by (simp add: confined_def)
    have "static (jobs n1 ! j) = static (jobs (npu s) ! j)"
      using c jl by (simp add: confined_def)
    then have ff: "finished_fence (jobs (npu ?s1) ! j) = finished_fence job"
      using je by (simp add: static_def finished_fence_def)
    have i2: "sys_inv (?s1\<lparr>finished := finished ?s1 @ finished_fence job\<rparr>)"
      using sys_inv_finish[OF i1 jl1] ff by simp
    show ?thesis
    proof (cases "\<exists>f. r = Ret_fence f")
      case True
      then have "t = ?s1" using st job \<open>dependencies_signaled _ job\<close> run
        by (auto simp: drm_sched_run_job_def Let_def)
      then show ?thesis using i1 by simp
    next
      case False
      then have "t = ?s1\<lparr>finished := finished ?s1 @ finished_fence job\<rparr>"
        using st job \<open>dependencies_signaled _ job\<close> run
        by (cases r) (auto simp: drm_sched_run_job_def Let_def)
      then show ?thesis using i2 by simp
    qed
  qed
qed

lemma drm_sched_job_done_inv:
  assumes inv: "sys_inv s" and st: "drm_sched_job_done s j = Some t"
  shows "sys_inv t"
proof (cases "t = s")
  case True
  then show ?thesis using inv by simp
next
  case False
  with st obtain f where jl: "j < length (jobs (npu s))"
    and df: "done_fence (jobs (npu s) ! j) = Some f"
    and t: "t = s\<lparr>finished := finished s @ finished_fence (jobs (npu s) ! j)\<rparr>"
    by (auto simp: drm_sched_job_done_def job_at_def split: option.splits if_splits)
  have "j \<in> set (sched_ran s)"
    using inv jl df by (simp add: sys_inv_def touched_inv_def)
  from sys_inv_finish[OF inv jl this] t show ?thesis by simp
qed

lemma signal_elsewhere_inv:
  assumes inv: "sys_inv s"
  shows "sys_inv (signal_elsewhere s f)"
proof (cases "f < sys_fence_seq s \<and> Some f \<notin> set (map inference_done_fence (jobs (npu s)))")
  case False
  then show ?thesis using inv by (auto simp: signal_elsewhere_def)
next
  case True
  have q: "queue_inv (map static (jobs (npu s))) (sys_resv s) (sys_fence_seq s)
             (set (finished s)) (set (sched_ran s))"
    and ti: "touched_inv s" using inv by (simp_all add: sys_inv_def)
  have nf: "\<forall>k<length (map static (jobs (npu s))). v_fence (map static (jobs (npu s)) ! k) \<noteq> Some f"
  proof (intro allI impI)
    fix k assume k: "k < length (map static (jobs (npu s)))"
    then have m: "jobs (npu s) ! k \<in> set (jobs (npu s))" by simp
    have "inference_done_fence (jobs (npu s) ! k) \<noteq> Some f"
      using True imageI[OF m, of inference_done_fence] by auto
    then show "v_fence (map static (jobs (npu s)) ! k) \<noteq> Some f"
      using k by (simp add: static_def)
  qed
  have "queue_inv (map static (jobs (npu s))) (sys_resv s) (sys_fence_seq s)
             (insert f (set (finished s))) (set (sched_ran s))"
    by (rule queue_inv_elsewhere[OF q _ nf]) (use True in simp)
  moreover have "touched_inv (s\<lparr>finished := finished s @ [f]\<rparr>)"
    using ti by (simp add: touched_inv_def)
  ultimately show ?thesis using True by (simp add: sys_inv_def signal_elsewhere_def)
qed

lemma sys_step_inv:
  assumes inv: "sys_inv s" and st: "sys_step s e = Some t"
  shows "sys_inv t"
proof (cases e)
  case (Submit_job env um fpriv ujob)
  then show ?thesis using sys_submit_job_inv[OF inv] st by (simp add: sys_step_def)
next
  case (Engine ev)
  show ?thesis
  proof (cases "\<exists>j env. ev = Run_job j env")
    case True
    then show ?thesis using drm_sched_run_job_inv[OF inv] st Engine
      by (auto simp: sys_step_def)
  next
    case False
    with st Engine obtain n1 where n1: "step (npu s) ev = Some n1" and t: "t = s\<lparr>npu := n1\<rparr>"
      by (cases ev) (auto simp: sys_step_def)
    have c: "confined {k. in_flight_job (core (npu s)) = Some k} (npu s) n1"
      by (rule step_confined[OF n1]) (use False in simp)
    have "{k. in_flight_job (core (npu s)) = Some k} \<subseteq> set (sched_ran s)"
      using inv by (auto simp: sys_inv_def touched_inv_def)
    from sys_inv_engine[OF inv c this] t show ?thesis by simp
  qed
next
  case (Job_done j)
  then show ?thesis using drm_sched_job_done_inv[OF inv] st by (simp add: sys_step_def)
next
  case (Signal_elsewhere f)
  then show ?thesis using signal_elsewhere_inv[OF inv] st by (auto simp: sys_step_def)
qed

lemma sys_exec_inv:
  "sys_inv s \<Longrightarrow> sys_exec s es = Some t \<Longrightarrow> sys_inv t"
proof (induction es arbitrary: s)
  case Nil
  then show ?case by simp
next
  case (Cons e es)
  from Cons.prems(2) obtain s1 where s1: "sys_step s e = Some s1" and r: "sys_exec s1 es = Some t"
    by (auto split: option.splits)
  from Cons.IH[OF sys_step_inv[OF Cons.prems(1) s1] r] show ?case .
qed

lemma sys_exec_append:
  "sys_exec s (es @ es') = (case sys_exec s es of None \<Rightarrow> None | Some s1 \<Rightarrow> sys_exec s1 es')"
  by (induction es arbitrary: s) (auto split: option.splits)

lemma sys_submit_job_queued:
  assumes "rocket_ioctl_submit_job env um fpriv (device_of s) ujob = Some (None, dev')"
  shows "\<exists>q. jobs (npu (with_device dev' s)) = jobs (npu s) @ [q] \<and>
           (\<forall>b\<in>set (in_bos q). set (hazard_fences (sys_resv s b) False) \<subseteq> set (dependencies q)) \<and>
           (\<forall>b\<in>set (out_bos q). set (hazard_fences (sys_resv s b) True) \<subseteq> set (dependencies q))"
proof -
  from rocket_ioctl_submit_job_cases[OF assms] obtain job where
    p: "rocket_job_push env (device_of s) job = Some (None, dev')" by auto
  let ?q = "job\<lparr>inference_done_fence := Some (sys_fence_seq s),
                dependencies := dependencies job @
                  concat (map (\<lambda>b. hazard_fences (sys_resv s b) False) (in_bos job)) @
                  concat (map (\<lambda>b. hazard_fences (sys_resv s b) True) (out_bos job))\<rparr>"
  from rocket_job_push_ok[OF p] have "jobs (npu (with_device dev' s)) = jobs (npu s) @ [?q]"
    by (simp add: with_device_def device_of_def)
  then show ?thesis by (intro exI[of _ ?q]) auto
qed

lemma sys_step_static:
  assumes "sys_step s e = Some t"
  shows "\<exists>ext. map static (jobs (npu t)) = map static (jobs (npu s)) @ ext"
proof (cases e)
  case (Submit_job env um fpriv ujob)
  with assms obtain r dev' where
    io: "rocket_ioctl_submit_job env um fpriv (device_of s) ujob = Some (r, dev')"
    and t: "t = with_device dev' s"
    by (auto simp: sys_step_def sys_submit_job_def)
  show ?thesis
  proof (cases r)
    case None
    from sys_submit_job_queued[OF io[unfolded None]] t show ?thesis by auto
  next
    case (Some e)
    with rocket_ioctl_submit_job_cases[OF io] have "jobs (npu t) = jobs (npu s)"
      by (simp add: t with_device_def device_of_def)
    then show ?thesis by simp
  qed
next
  case (Engine ev)
  show ?thesis
  proof (cases "\<exists>j env. ev = Run_job j env")
    case True
    then obtain j env where ev: "ev = Run_job j env" by blast
    with assms Engine have st: "drm_sched_run_job env s j = Some t" by (simp add: sys_step_def)
    show ?thesis
    proof (cases "t = s")
      case True
      then show ?thesis by simp
    next
      case False
      with st obtain r n1 where run: "rocket_job_run env (npu s) j = Some (r, n1)"
        and n: "npu t = n1"
        by (auto simp: drm_sched_run_job_def Let_def split: option.splits if_splits run_result.splits)
      from rocket_job_run_confined[OF run, of UNIV] have "confined UNIV (npu s) n1" by simp
      from confined_static[OF this] n show ?thesis by simp
    qed
  next
    case False
    with assms Engine obtain n1 where n1: "step (npu s) ev = Some n1" and t: "t = s\<lparr>npu := n1\<rparr>"
      by (cases ev) (auto simp: sys_step_def)
    have "confined {k. in_flight_job (core (npu s)) = Some k} (npu s) n1"
      by (rule step_confined[OF n1]) (use False in simp)
    from confined_static[OF this] t show ?thesis by simp
  qed
next
  case (Job_done j)
  with assms have "npu t = npu s"
    by (auto simp: sys_step_def drm_sched_job_done_def split: option.splits if_splits)
  then show ?thesis by simp
next
  case (Signal_elsewhere f)
  with assms have "npu t = npu s" by (auto simp: sys_step_def signal_elsewhere_def)
  then show ?thesis by simp
qed

lemma sys_exec_static:
  "sys_exec s es = Some t \<Longrightarrow>
     \<exists>ext. map static (jobs (npu t)) = map static (jobs (npu s)) @ ext"
proof (induction es arbitrary: s)
  case Nil
  then show ?case by simp
next
  case (Cons e es)
  from Cons.prems obtain s1 where s1: "sys_step s e = Some s1" and r: "sys_exec s1 es = Some t"
    by (auto split: option.splits)
  from sys_step_static[OF s1] Cons.IH[OF r] show ?case by auto
qed

lemma sys_inv_start:
  assumes "jobs (npu s0) = []" "in_flight_job (core (npu s0)) = None" "sched_ran s0 = []"
    "\<forall>f\<in>set (finished s0). f < sys_fence_seq s0"
  shows "sys_inv s0"
  using assms
  by (simp add: sys_inv_def queue_inv_def fence_inv_def ran_inv_def writer_inv_def
        deps_inv_def touched_inv_def)

lemma sys_inv_begun:
  assumes inv: "sys_inv t" and j: "j < length (jobs (npu t))" and b: "dispatch_begun t j"
  shows "j \<in> set (sched_ran t)"
  using assms by (auto simp: sys_inv_def touched_inv_def dispatch_begun_def)

lemmas sys_defs =
  sys_step_def sys_submit_job_def device_of_def with_device_def drm_sched_run_job_def
  drm_sched_job_done_def signal_elsewhere_def finished_fence_def dependencies_signaled_def
  dispatch_begun_def

lemmas sys_example_defs =
  shared_buffers_def start_system_def job_r1_w0_def submit_three_def others_signal_def
  run_to_end_def blocked_run_def hazard_run_def

section \<open>The claim about scheduler and engine together\<close>

text \<open>
  C2. Along every run of submission, scheduler and engine from a state with no job: a job
  whose dispatch has begun has every fence of its dependency set signaled; a job pushed
  (\<open>rocket_ioctl_submit_job\<close> returns 0) has in its dependency set the writer fence that
  each buffer of its input set had when it was pushed, and the writer fence and all the
  reader fences that each buffer of its output set had then; and if job \<open>i\<close> writes a buffer
  and job \<open>j\<close>, pushed later, reads or writes that buffer, then once the dispatch of \<open>j\<close> has
  begun the finished fence of \<open>i\<close> is signaled, whatever has been pushed in between.
\<close>

theorem dispatch_waits_for_hazards:
  assumes init: "jobs (npu s0) = []" "in_flight_job (core (npu s0)) = None"
      "sched_ran s0 = []" "\<forall>f\<in>set (finished s0). f < sys_fence_seq s0"
    and run: "sys_exec s0 es = Some t"
  shows
    "(\<forall>j<length (jobs (npu t)). dispatch_begun t j \<longrightarrow>
        dependencies_signaled (\<lambda>f. f \<in> set (finished t)) (jobs (npu t) ! j)) \<and>
     (\<forall>j<length (jobs (npu t)). \<forall>i<j. \<forall>b\<in>set (out_bos (jobs (npu t) ! i)).
        (b \<in> set (in_bos (jobs (npu t) ! j)) \<or> b \<in> set (out_bos (jobs (npu t) ! j))) \<and>
        dispatch_begun t j \<longrightarrow>
        (\<exists>f. inference_done_fence (jobs (npu t) ! i) = Some f \<and> f \<in> set (finished t))) \<and>
     (\<forall>es1 env um fpriv ujob es2 s1 dev'.
        es = es1 @ Submit_job env um fpriv ujob # es2 \<and> sys_exec s0 es1 = Some s1 \<and>
        rocket_ioctl_submit_job env um fpriv (device_of s1) ujob = Some (None, dev') \<longrightarrow>
        length (jobs (npu s1)) < length (jobs (npu t)) \<and>
        (\<forall>b\<in>set (in_bos (jobs (npu t) ! length (jobs (npu s1)))).
           \<forall>f. writer (sys_resv s1 b) = Some f \<longrightarrow>
               f \<in> set (dependencies (jobs (npu t) ! length (jobs (npu s1))))) \<and>
        (\<forall>b\<in>set (out_bos (jobs (npu t) ! length (jobs (npu s1)))).
           (\<forall>f. writer (sys_resv s1 b) = Some f \<longrightarrow>
               f \<in> set (dependencies (jobs (npu t) ! length (jobs (npu s1))))) \<and>
           set (readers (sys_resv s1 b)) \<subseteq>
             set (dependencies (jobs (npu t) ! length (jobs (npu s1))))))"
proof -
  have inv: "sys_inv t" by (rule sys_exec_inv[OF sys_inv_start[OF init] run])
  let ?qs = "map static (jobs (npu t))"
  have q: "queue_inv ?qs (sys_resv t) (sys_fence_seq t) (set (finished t)) (set (sched_ran t))"
    using inv by (simp add: sys_inv_def)
  have a: "dependencies_signaled (\<lambda>f. f \<in> set (finished t)) (jobs (npu t) ! j)"
    if j: "j < length (jobs (npu t))" and b: "dispatch_begun t j" for j
  proof -
    have "j \<in> set (sched_ran t)" by (rule sys_inv_begun[OF inv j b])
    then have "set (v_deps (?qs ! j)) \<subseteq> set (finished t)"
      using q unfolding queue_inv_def ran_inv_def by blast
    then show ?thesis using j
      by (auto simp: static_def dependencies_signaled_def list_all_iff)
  qed
  have b: "\<exists>f. inference_done_fence (jobs (npu t) ! i) = Some f \<and> f \<in> set (finished t)"
    if j: "j < length (jobs (npu t))" and i: "i < j"
      and bo: "b \<in> set (out_bos (jobs (npu t) ! i))"
      and bj: "b \<in> set (in_bos (jobs (npu t) ! j)) \<or> b \<in> set (out_bos (jobs (npu t) ! j))"
      and bg: "dispatch_begun t j" for i j b
  proof -
    have r: "j \<in> set (sched_ran t)" by (rule sys_inv_begun[OF inv j bg])
    have "\<exists>f. v_fence (?qs ! i) = Some f \<and> f \<in> set (finished t)"
      by (rule queue_inv_order[OF q r i]) (use i j bo bj in \<open>auto simp: static_def\<close>)
    then show ?thesis using i j by (simp add: static_def)
  qed
  have c: "length (jobs (npu s1)) < length (jobs (npu t)) \<and>
        (\<forall>b\<in>set (in_bos (jobs (npu t) ! length (jobs (npu s1)))).
           \<forall>f. writer (sys_resv s1 b) = Some f \<longrightarrow>
               f \<in> set (dependencies (jobs (npu t) ! length (jobs (npu s1))))) \<and>
        (\<forall>b\<in>set (out_bos (jobs (npu t) ! length (jobs (npu s1)))).
           (\<forall>f. writer (sys_resv s1 b) = Some f \<longrightarrow>
               f \<in> set (dependencies (jobs (npu t) ! length (jobs (npu s1))))) \<and>
           set (readers (sys_resv s1 b)) \<subseteq>
             set (dependencies (jobs (npu t) ! length (jobs (npu s1)))))"
    if es: "es = es1 @ Submit_job env um fpriv ujob # es2"
      and s1: "sys_exec s0 es1 = Some s1"
      and io: "rocket_ioctl_submit_job env um fpriv (device_of s1) ujob = Some (None, dev')"
    for es1 env um fpriv ujob es2 s1 dev'
  proof -
    let ?s2 = "with_device dev' s1"
    let ?n = "length (jobs (npu s1))"
    have st: "sys_step s1 (Submit_job env um fpriv ujob) = Some ?s2"
      using io by (simp add: sys_step_def sys_submit_job_def)
    have r2: "sys_exec ?s2 es2 = Some t"
      using run s1 st unfolding es by (simp add: sys_exec_append)
    from sys_submit_job_queued[OF io] obtain q where
      q: "jobs (npu ?s2) = jobs (npu s1) @ [q]"
      and qi: "\<forall>b\<in>set (in_bos q). set (hazard_fences (sys_resv s1 b) False) \<subseteq> set (dependencies q)"
      and qo: "\<forall>b\<in>set (out_bos q). set (hazard_fences (sys_resv s1 b) True) \<subseteq> set (dependencies q)"
      by blast
    from sys_exec_static[OF r2] obtain ext where
      ext: "map static (jobs (npu t)) = map static (jobs (npu s1)) @ static q # ext"
      using q by auto
    have len: "?n < length (jobs (npu t))"
      using arg_cong[OF ext, of length] by simp
    have "map static (jobs (npu t)) ! ?n = static q"
      unfolding ext by (simp add: nth_append)
    then have sq: "static (jobs (npu t) ! ?n) = static q" using len by simp
    then have e: "in_bos (jobs (npu t) ! ?n) = in_bos q" "out_bos (jobs (npu t) ! ?n) = out_bos q"
      "dependencies (jobs (npu t) ! ?n) = dependencies q"
      by (simp_all add: static_def)
    show ?thesis
      unfolding e using len qi qo by (auto simp: hazard_fences_def split: option.splits)
  qed
  show ?thesis
    apply (intro conjI allI impI ballI)
    subgoal for j using a by blast
    subgoal for j i b using b by blast
    subgoal using c by blast
    subgoal using c by blast
    subgoal using c by blast
    subgoal using c by blast
    done
qed

theorem dispatch_waits_for_hazards_witness:
  "jobs (npu start_system) = [] \<and> in_flight_job (core (npu start_system)) = None \<and>
   sched_ran start_system = [] \<and> finished start_system = [] \<and>
   (\<exists>t. sys_exec start_system hazard_run = Some t \<and>
        length (jobs (npu t)) = 3 \<and>
        next_task_idx (jobs (npu t) ! 2) = 1 \<and> dispatch_begun t 2 \<and>
        dependencies (jobs (npu t) ! 2) = [11, 2, 3, 4] \<and>
        dependencies_signaled (\<lambda>f. f \<in> set (finished t)) (jobs (npu t) ! 2) \<and>
        out_bos (jobs (npu t) ! 0) = [1] \<and> in_bos (jobs (npu t) ! 2) = [1] \<and>
        inference_done_fence (jobs (npu t) ! 0) = Some 10 \<and> 10 \<in> set (finished t)) \<and>
   (\<exists>s1 dev'. sys_exec start_system (take 2 submit_three) = Some s1 \<and>
        rocket_ioctl_submit_job no_failure example_mem two_handles (device_of s1) job_r1_w0
          = Some (None, dev') \<and>
        length (jobs (npu s1)) = 2 \<and>
        writer (sys_resv s1 1) = Some 11 \<and>
        writer (sys_resv s1 0) = Some 2 \<and> readers (sys_resv s1 0) = [3, 4]) \<and>
   (\<exists>u. sys_exec start_system blocked_run = Some u \<and>
        next_task_idx (jobs (npu u) ! 2) = 0 \<and> \<not> dispatch_begun u 2 \<and>
        10 \<notin> set (finished u) \<and> 11 \<notin> set (finished u))"
proof -
  let ?t = "sys_after start_system hazard_run"
  let ?s1 = "sys_after start_system (take 2 submit_three)"
  let ?u = "sys_after start_system blocked_run"
  have init: "jobs (npu start_system) = []" "in_flight_job (core (npu start_system)) = None"
    "sched_ran start_system = []" "finished start_system = []"
    by (simp_all add: start_system_def idle_state_def)
  have init4: "\<forall>f\<in>set (finished start_system). f < sys_fence_seq start_system"
    using init(4) by simp
  have t: "sys_exec start_system hazard_run = Some ?t"
    "length (jobs (npu ?t)) = 3" "next_task_idx (jobs (npu ?t) ! 2) = 1"
    "dependencies (jobs (npu ?t) ! 2) = [11, 2, 3, 4]"
    "out_bos (jobs (npu ?t) ! 0) = [1]" "in_bos (jobs (npu ?t) ! 2) = [1]"
    "out_bos (jobs (npu ?t) ! 2) = [0]"
    by (simp_all add: sys_after_def sys_defs sys_example_defs submit_defs submit_example_defs
          run_defs example_defs hazard_fences_def)
  have s1: "sys_exec start_system (take 2 submit_three) = Some ?s1"
    "length (jobs (npu ?s1)) = 2"
    "writer (sys_resv ?s1 1) = Some 11"
    "writer (sys_resv ?s1 0) = Some 2" "readers (sys_resv ?s1 0) = [3, 4]"
    by (simp_all add: sys_after_def sys_defs sys_example_defs submit_defs submit_example_defs
          example_defs hazard_fences_def)
  obtain dev' where io:
    "rocket_ioctl_submit_job no_failure example_mem two_handles (device_of ?s1) job_r1_w0
       = Some (None, dev')"
    by (simp add: sys_after_def sys_defs sys_example_defs submit_defs submit_example_defs
          example_defs hazard_fences_def)
  have u: "sys_exec start_system blocked_run = Some ?u"
    "next_task_idx (jobs (npu ?u) ! 2) = 0" "\<not> dispatch_begun ?u 2"
    "10 \<notin> set (finished ?u)" "11 \<notin> set (finished ?u)"
    by (simp_all add: sys_after_def sys_defs sys_example_defs submit_defs submit_example_defs
          run_defs example_defs hazard_fences_def)
  have es: "hazard_run = take 2 submit_three @
      Submit_job no_failure example_mem two_handles job_r1_w0 #
      (others_signal @ [Engine (Run_job 2 ok_env)] @ run_to_end 0 @ run_to_end 1 @
       [Engine (Run_job 2 ok_env)])"
    by (simp add: hazard_run_def blocked_run_def submit_three_def)
  note th = dispatch_waits_for_hazards[OF init(1-3) init4 t(1)]
  note th1 = th[THEN conjunct1, rule_format]
  note th2 = th[THEN conjunct2, THEN conjunct1, rule_format]
  note th3 = th[THEN conjunct2, THEN conjunct2, rule_format]
  have bg: "dispatch_begun ?t 2" using t(3) by (simp add: dispatch_begun_def)
  have a: "dependencies_signaled (\<lambda>f. f \<in> set (finished ?t)) (jobs (npu ?t) ! 2)"
    by (rule th1) (use t(2) bg in simp_all)
  have "\<exists>f. inference_done_fence (jobs (npu ?t) ! 0) = Some f \<and> f \<in> set (finished ?t)"
    by (rule th2[of 2 0 1]) (use t(2,5,6) bg in simp_all)
  moreover have "inference_done_fence (jobs (npu ?t) ! 0) = Some 10"
    by (simp add: sys_after_def sys_defs sys_example_defs submit_defs submit_example_defs
          run_defs example_defs hazard_fences_def)
  ultimately have b: "inference_done_fence (jobs (npu ?t) ! 0) = Some 10"
    "10 \<in> set (finished ?t)"
    by auto
  have c0: "hazard_run = take 2 submit_three @
      Submit_job no_failure example_mem two_handles job_r1_w0 #
      (others_signal @ [Engine (Run_job 2 ok_env)] @ run_to_end 0 @ run_to_end 1 @
       [Engine (Run_job 2 ok_env)]) \<and>
      sys_exec start_system (take 2 submit_three) = Some ?s1 \<and>
      rocket_ioctl_submit_job no_failure example_mem two_handles (device_of ?s1) job_r1_w0
       = Some (None, dev')"
    using es s1(1) io by blast
  have c: "set (readers (sys_resv ?s1 0)) \<subseteq> set (dependencies (jobs (npu ?t) ! 2))"
    using th3[OF c0] s1(2) t(7) by simp
  show ?thesis
    using init t a b bg s1 io u c by blast
qed

end
